theory Spec2Isabelle
  imports Main "HOL-Library.Word" "HOL-Library.Finite_Map"
begin

unbundle bit_operations_syntax

section \<open>JavaScript values used by \<^verbatim>\<open>index.js\<close>\<close>

text \<open>
  The module \<^verbatim>\<open>index.js\<close> exports one function, \<^verbatim>\<open>etag(entity, options)\<close>, and keeps
  three module variables: \<^verbatim>\<open>hashCache\<close>, \<^verbatim>\<open>hashCacheKeys\<close> and \<^verbatim>\<open>statCache\<close>.
  The embedding passes these three explicitly as a record, takes \<^verbatim>\<open>Date.now()\<close> as an
  argument of each call, and keeps the contents of the caller's Buffer objects in a store:
  a Buffer value is a reference, \<^verbatim>\<open>===\<close> on two Buffers compares the references, and the
  bytes behind a reference belong to the caller, who may overwrite them between two calls.

  A JavaScript string is a sequence of UTF-16 code units; \<^verbatim>\<open>length\<close> and
  \<^verbatim>\<open>charCodeAt\<close> count code units, \<^verbatim>\<open>Buffer.byteLength(s, 'utf8')\<close> and the digest work
  on the UTF-8 encoding. Cache keys and tags are ASCII and are kept as HOL strings.

  A JavaScript number is a double. The model has the integral values and the three
  non-finite ones; fractional values are outside the model. Integers are rendered as
  \<^verbatim>\<open>Number.prototype.toString\<close> renders safe integers, digit by digit; the exponent
  notation that radix 10 gives from \<open>10\<^sup>2\<^sup>1\<close> on is outside the model.
\<close>

type_synonym byte = "8 word"
type_synonym u32 = "32 word"
type_synonym code_unit = "16 word"
type_synonym jsstring = "code_unit list"
type_synonym addr = nat
type_synonym store = "addr \<Rightarrow> byte list"

datatype number = Integer int | NaN | PosInfinity | NegInfinity

subsection \<open>Rendering numbers: \<^verbatim>\<open>toString(radix)\<close> and string concatenation\<close>

definition digit_char :: "nat \<Rightarrow> char" where
  "digit_char d = ''0123456789abcdefghijklmnopqrstuvwxyz'' ! d"

text \<open>The digits of a natural number, most significant first. The radix is 10 or 16 in
  this module; a radix below 2 (a RangeError in JavaScript) never occurs.\<close>

function digits :: "nat \<Rightarrow> nat \<Rightarrow> string" where
  "digits radix n =
     (if radix < 2 then []
      else if n < radix then [digit_char n]
      else digits radix (n div radix) @ [digit_char (n mod radix)])"
  by pat_completeness auto
termination
  by (relation "measure snd") auto

declare digits.simps [simp del]

definition int_toString :: "nat \<Rightarrow> int \<Rightarrow> string" where
  "int_toString radix i =
     (if i < 0 then CHR ''-'' # digits radix (nat (- i)) else digits radix (nat i))"

fun number_toString :: "nat \<Rightarrow> number \<Rightarrow> string" where
  "number_toString radix (Integer i) = int_toString radix i"
| "number_toString radix NaN = ''NaN''"
| "number_toString radix PosInfinity = ''Infinity''"
| "number_toString radix NegInfinity = ''-Infinity''"

subsection \<open>Strings: \<^verbatim>\<open>charCodeAt\<close> and the UTF-8 encoding\<close>

text \<open>\<^verbatim>\<open>s.charCodeAt(i)\<close> is the code unit at index \<open>i\<close>, and \<^verbatim>\<open>NaN\<close> when \<open>i\<close> is
  not an index of \<open>s\<close>.\<close>

definition charCodeAt :: "jsstring \<Rightarrow> nat \<Rightarrow> number" where
  "charCodeAt s i = (if i < length s then Integer (uint (s ! i)) else NaN)"

definition is_high_surrogate :: "code_unit \<Rightarrow> bool" where
  "is_high_surrogate c = (0xD800 \<le> c \<and> c \<le> 0xDBFF)"

definition is_low_surrogate :: "code_unit \<Rightarrow> bool" where
  "is_low_surrogate c = (0xDC00 \<le> c \<and> c \<le> 0xDFFF)"

definition utf8_code_point :: "nat \<Rightarrow> byte list" where
  "utf8_code_point cp =
     (if cp < 0x80 then [of_nat cp]
      else if cp < 0x800 then [of_nat (0xC0 + cp div 64), of_nat (0x80 + cp mod 64)]
      else if cp < 0x10000 then
        [of_nat (0xE0 + cp div 4096), of_nat (0x80 + cp div 64 mod 64), of_nat (0x80 + cp mod 64)]
      else
        [of_nat (0xF0 + cp div 262144), of_nat (0x80 + cp div 4096 mod 64),
         of_nat (0x80 + cp div 64 mod 64), of_nat (0x80 + cp mod 64)])"

text \<open>A code unit on its own; an unpaired surrogate is encoded as U+FFFD.\<close>

definition utf8_unit :: "code_unit \<Rightarrow> byte list" where
  "utf8_unit c =
     (if is_high_surrogate c \<or> is_low_surrogate c then [0xEF, 0xBF, 0xBD]
      else utf8_code_point (unat c))"

fun utf8_encode :: "jsstring \<Rightarrow> byte list" where
  "utf8_encode [] = []"
| "utf8_encode [c] = utf8_unit c"
| "utf8_encode (c # d # cs) =
     (if is_high_surrogate c \<and> is_low_surrogate d
      then utf8_code_point (0x10000 + (unat c - 0xD800) * 0x400 + (unat d - 0xDC00))
           @ utf8_encode cs
      else utf8_unit c @ utf8_encode (d # cs))"

section \<open>The digest: \<^verbatim>\<open>crypto.createHash('sha1')\<close> and \<^verbatim>\<open>digest('base64')\<close>\<close>

text \<open>
  Node's \<^verbatim>\<open>crypto\<close> module is not part of the repository. \<^verbatim>\<open>createHash('sha1')\<close> is the
  SHA-1 function of FIPS 180-4 on the bytes given to \<^verbatim>\<open>update\<close>, and
  \<^verbatim>\<open>digest('base64')\<close> is the RFC 4648 encoding of its 20 bytes, padding included.
\<close>

definition rotl :: "nat \<Rightarrow> u32 \<Rightarrow> u32" where
  "rotl n x = push_bit n x OR drop_bit (32 - n) x"

definition be32 :: "byte \<Rightarrow> byte \<Rightarrow> byte \<Rightarrow> byte \<Rightarrow> u32" where
  "be32 a b c d =
     push_bit 24 (ucast a) OR push_bit 16 (ucast b) OR push_bit 8 (ucast c) OR ucast d"

fun words_of :: "byte list \<Rightarrow> u32 list" where
  "words_of (a # b # c # d # rest) = be32 a b c d # words_of rest"
| "words_of _ = []"

definition bytes_of_u32 :: "u32 \<Rightarrow> byte list" where
  "bytes_of_u32 w = [ucast (drop_bit 24 w), ucast (drop_bit 16 w), ucast (drop_bit 8 w), ucast w]"

definition bytes_of_u64 :: "64 word \<Rightarrow> byte list" where
  "bytes_of_u64 w =
     [ucast (drop_bit 56 w), ucast (drop_bit 48 w), ucast (drop_bit 40 w), ucast (drop_bit 32 w),
      ucast (drop_bit 24 w), ucast (drop_bit 16 w), ucast (drop_bit 8 w), ucast w]"

text \<open>The message, one byte \<open>0x80\<close>, zero bytes up to 56 modulo 64, and the length in bits
  as 64 bits, most significant byte first.\<close>

definition sha1_pad :: "byte list \<Rightarrow> byte list" where
  "sha1_pad m =
     m @ [0x80] @ replicate ((119 - length m mod 64) mod 64) 0 @
     bytes_of_u64 (word_of_nat (8 * length m))"

text \<open>The message schedule, kept newest word first: \<open>schedule 64\<close> extends the 16 words
  of a block to 80.\<close>

fun schedule :: "nat \<Rightarrow> u32 list \<Rightarrow> u32 list" where
  "schedule 0 w = w"
| "schedule (Suc n) w =
     schedule n (rotl 1 (w ! 2 XOR w ! 7 XOR w ! 13 XOR w ! 15) # w)"

definition sha1_f :: "nat \<Rightarrow> u32 \<Rightarrow> u32 \<Rightarrow> u32 \<Rightarrow> u32" where
  "sha1_f t b c d =
     (if t < 20 then (b AND c) OR (NOT b AND d)
      else if t < 40 then b XOR c XOR d
      else if t < 60 then (b AND c) OR (b AND d) OR (c AND d)
      else b XOR c XOR d)"

definition sha1_k :: "nat \<Rightarrow> u32" where
  "sha1_k t =
     (if t < 20 then 0x5A827999 else if t < 40 then 0x6ED9EBA1
      else if t < 60 then 0x8F1BBCDC else 0xCA62C1D6)"

type_synonym sha1_vars = "nat \<times> u32 \<times> u32 \<times> u32 \<times> u32 \<times> u32"
type_synonym sha1_hash = "u32 \<times> u32 \<times> u32 \<times> u32 \<times> u32"

fun sha1_round :: "sha1_vars \<Rightarrow> u32 \<Rightarrow> sha1_vars" where
  "sha1_round (t, a, b, c, d, e) w =
     (t + 1, rotl 5 a + sha1_f t b c d + e + sha1_k t + w, a, rotl 30 b, c, d)"

fun sha1_block :: "sha1_hash \<Rightarrow> byte list \<Rightarrow> sha1_hash" where
  "sha1_block (h0, h1, h2, h3, h4) block =
     (case foldl sha1_round (0, h0, h1, h2, h3, h4)
             (rev (schedule 64 (rev (words_of block)))) of
        (t, a, b, c, d, e) \<Rightarrow> (h0 + a, h1 + b, h2 + c, h3 + d, h4 + e))"

fun blocks :: "byte list \<Rightarrow> byte list list" where
  "blocks m = (if length m < 64 then [] else take 64 m # blocks (drop 64 m))"

declare blocks.simps [simp del]

definition sha1 :: "byte list \<Rightarrow> byte list" where
  "sha1 m =
     (case foldl sha1_block (0x67452301, 0xEFCDAB89, 0x98BADCFE, 0x10325476, 0xC3D2E1F0)
             (blocks (sha1_pad m)) of
        (h0, h1, h2, h3, h4) \<Rightarrow> concat (map bytes_of_u32 [h0, h1, h2, h3, h4]))"

definition base64_char :: "nat \<Rightarrow> char" where
  "base64_char n = ''ABCDEFGHIJKLMNOPQRSTUVWXYZabcdefghijklmnopqrstuvwxyz0123456789+/'' ! n"

fun base64 :: "byte list \<Rightarrow> string" where
  "base64 (a # b # c # rest) =
     [base64_char (unat a div 4),
      base64_char (unat a mod 4 * 16 + unat b div 16),
      base64_char (unat b mod 16 * 4 + unat c div 64),
      base64_char (unat c mod 64)] @ base64 rest"
| "base64 [a, b] =
     [base64_char (unat a div 4),
      base64_char (unat a mod 4 * 16 + unat b div 16),
      base64_char (unat b mod 16 * 4),
      CHR ''='']"
| "base64 [a] =
     [base64_char (unat a div 4), base64_char (unat a mod 4 * 16), CHR ''='', CHR ''='']"
| "base64 [] = []"

section \<open>Module state\<close>

datatype payload = Str jsstring | Buf addr

record hash_entry =
  entity :: payload
  tag :: string

record stat_entry =
  strongTag :: string
  weakTag :: string
  timestamp :: int

record caches =
  hashCache :: "(string, hash_entry) fmap"
  hashCacheKeys :: "string list"
  statCache :: "(string, stat_entry) fmap"

definition HASH_CACHE_SIZE :: nat where
  "HASH_CACHE_SIZE = 1000"

definition STAT_CACHE_TTL :: int where
  "STAT_CACHE_TTL = 5000"

definition EMPTY_TAG :: string where
  \<open>EMPTY_TAG = ''"0-2jmj7l5rSw0yVb/vlWAYkK/YBwk"''\<close>

definition WEAK_EMPTY_TAG :: string where
  "WEAK_EMPTY_TAG = ''W/'' @ EMPTY_TAG"

text \<open>The module as loaded: both maps and the key list are empty.\<close>

definition init :: caches where
  "init = \<lparr>hashCache = fmempty, hashCacheKeys = [], statCache = fmempty\<rparr>"

text \<open>\<^verbatim>\<open>map.size\<close> of a JavaScript Map.\<close>

definition map_size :: "('k, 'v) fmap \<Rightarrow> nat" where
  "map_size m = fcard (fmdom m)"

section \<open>\<^verbatim>\<open>entitytag\<close>\<close>

text \<open>\<^verbatim>\<open>entity.length\<close>: code units of a string, bytes of a Buffer.\<close>

fun entity_length :: "store \<Rightarrow> payload \<Rightarrow> nat" where
  "entity_length h (Str s) = length s"
| "entity_length h (Buf a) = length (h a)"

text \<open>\<^verbatim>\<open>len = isBuffer ? entity.length : Buffer.byteLength(entity, 'utf8')\<close>\<close>

fun byte_length :: "store \<Rightarrow> payload \<Rightarrow> nat" where
  "byte_length h (Str s) = length (utf8_encode s)"
| "byte_length h (Buf a) = length (h a)"

text \<open>The bytes that \<^verbatim>\<open>update(entity, 'utf8')\<close> feeds to the digest.\<close>

fun entity_bytes :: "store \<Rightarrow> payload \<Rightarrow> byte list" where
  "entity_bytes h (Str s) = utf8_encode s"
| "entity_bytes h (Buf a) = h a"

text \<open>The cache key. For a string the last position is taken at index \<open>len - 1\<close> with
  \<open>len\<close> the byte length, as the source does; \<open>len\<close> is positive where the key is built.\<close>

fun cacheKey :: "store \<Rightarrow> payload \<Rightarrow> string" where
  "cacheKey h (Buf a) =
     (let len = length (h a)
      in digits 10 len @ ''-'' @ digits 10 (unat (h a ! 0)) @ ''-''
         @ digits 10 (unat (h a ! (len - 1))))"
| "cacheKey h (Str s) =
     (let len = length (utf8_encode s)
      in digits 10 len @ ''-'' @ number_toString 10 (charCodeAt s 0) @ ''-''
         @ number_toString 10 (charCodeAt s (len - 1)))"

text \<open>Lines 79 to 85: the digest, cut to 27 characters, behind the length in hexadecimal.\<close>

definition compute_tag :: "store \<Rightarrow> payload \<Rightarrow> string" where
  \<open>compute_tag h e =
     (let hash = take 27 (base64 (sha1 (entity_bytes h e)))
      in ''"'' @ digits 16 (byte_length h e) @ ''-'' @ hash @ ''"'')\<close>

text \<open>\<^verbatim>\<open>cached && cached.entity === entity\<close>: strings are compared by value, Buffers by
  reference; equality of \<^typ>\<open>payload\<close> is exactly that.\<close>

definition hash_hit :: "hash_entry option \<Rightarrow> payload \<Rightarrow> bool" where
  "hash_hit cached e = (case cached of None \<Rightarrow> False | Some c \<Rightarrow> entity c = e)"

text \<open>Lines 88 to 91: at capacity, \<^verbatim>\<open>hashCacheKeys.shift()\<close> and deletion of that key.
  \<^verbatim>\<open>shift\<close> of an empty array gives \<^verbatim>\<open>undefined\<close>, which is no key of the map.\<close>

definition evict :: "caches \<Rightarrow> caches" where
  "evict s =
     (if map_size (hashCache s) \<ge> HASH_CACHE_SIZE then
        (case hashCacheKeys s of
           [] \<Rightarrow> s
         | oldestKey # rest \<Rightarrow>
             s\<lparr>hashCache := fmdrop oldestKey (hashCache s), hashCacheKeys := rest\<rparr>)
      else s)"

definition entitytag :: "store \<Rightarrow> payload \<Rightarrow> bool \<Rightarrow> caches \<Rightarrow> string \<times> caches" where
  "entitytag h e weak s =
     (if entity_length h e = 0 then (if weak then WEAK_EMPTY_TAG else EMPTY_TAG, s)
      else
        let key = cacheKey h e;
            cached = fmlookup (hashCache s) key
        in if hash_hit cached e
           then (if weak then ''W/'' @ tag (the cached) else tag (the cached), s)
           else
             let t = compute_tag h e;
                 s1 = evict s;
                 s2 = s1\<lparr>hashCacheKeys := hashCacheKeys s1 @ [key],
                         hashCache := fmupd key \<lparr>entity = e, tag = t\<rparr> (hashCache s1)\<rparr>
             in (if weak then ''W/'' @ t else t, s2))"

section \<open>\<^verbatim>\<open>isstats\<close> and \<^verbatim>\<open>stattag\<close>\<close>

text \<open>
  An instance of \<^verbatim>\<open>fs.Stats\<close> is accepted by \<^verbatim>\<open>isstats\<close> whatever its properties hold, so
  the model keeps what reading each of the four properties gives. For \<^verbatim>\<open>ctime\<close> and
  \<^verbatim>\<open>mtime\<close> that is a date, represented by its time value (\<^verbatim>\<open>getTime()\<close>, \<^verbatim>\<open>NaN\<close> for an
  invalid date), or a value that is no date and has no method \<^verbatim>\<open>getTime\<close> (an absent
  property, a primitive). For \<^verbatim>\<open>ino\<close> and \<^verbatim>\<open>size\<close> it is a primitive value,
  \<^verbatim>\<open>undefined\<close> for an absent property. The text of a string-valued property is kept as a
  HOL string (code units below 256); object-valued \<^verbatim>\<open>ino\<close> and \<^verbatim>\<open>size\<close> are outside the
  model.
\<close>

datatype prim = PUndefined | PNull | PBoolean bool | PNumber number | PString string

datatype timeval = DateValue number | NoDate

record stats =
  ctime :: timeval
  mtime :: timeval
  ino :: prim
  size_bytes :: prim

datatype jsval =
    JUndefined
  | JNull
  | JBoolean bool
  | JNumber number
  | JString jsstring
  | JBuffer addr
  | JDate number
  | JStats stats
  | JObject "(string \<times> jsval) list"

text \<open>\<^verbatim>\<open>'name' in obj && toString.call(obj.name) === '[object Date]'\<close>, and the same
  with \<^verbatim>\<open>typeof obj.name === 'number'\<close>, on the own properties of a plain object.\<close>

definition has_date :: "(string \<times> jsval) list \<Rightarrow> string \<Rightarrow> bool" where
  "has_date props name = (case map_of props name of Some (JDate t) \<Rightarrow> True | _ \<Rightarrow> False)"

definition has_number :: "(string \<times> jsval) list \<Rightarrow> string \<Rightarrow> bool" where
  "has_number props name = (case map_of props name of Some (JNumber n) \<Rightarrow> True | _ \<Rightarrow> False)"

fun isstats :: "jsval \<Rightarrow> bool" where
  "isstats (JStats st) = True"
| "isstats (JObject props) =
     (has_date props ''ctime'' \<and> has_date props ''mtime'' \<and>
      has_number props ''ino'' \<and> has_number props ''size'')"
| "isstats _ = False"

text \<open>The three reads of \<^verbatim>\<open>stattag\<close>, lines 164 to 166: \<^verbatim>\<open>stat.mtime\<close>, \<^verbatim>\<open>stat.size\<close> and
  \<^verbatim>\<open>stat.ino\<close>. They are \<open>None\<close> for the values that \<^verbatim>\<open>isstats\<close> rejects, on which
  \<^verbatim>\<open>stattag\<close> is never called.\<close>

definition read_date :: "(string \<times> jsval) list \<Rightarrow> string \<Rightarrow> number option" where
  "read_date props name = (case map_of props name of Some (JDate t) \<Rightarrow> Some t | _ \<Rightarrow> None)"

definition read_number :: "(string \<times> jsval) list \<Rightarrow> string \<Rightarrow> number option" where
  "read_number props name = (case map_of props name of Some (JNumber n) \<Rightarrow> Some n | _ \<Rightarrow> None)"

fun stat_fields :: "jsval \<Rightarrow> (timeval \<times> prim \<times> prim) option" where
  "stat_fields (JStats st) = Some (mtime st, size_bytes st, ino st)"
| "stat_fields (JObject props) =
     (case (read_date props ''mtime'', read_number props ''size'', read_number props ''ino'') of
        (Some m, Some sz, Some i) \<Rightarrow> Some (DateValue m, PNumber sz, PNumber i)
      | _ \<Rightarrow> None)"
| "stat_fields _ = None"

text \<open>The reads of a value whose \<^verbatim>\<open>mtime\<close> is a date and whose \<^verbatim>\<open>size\<close> and \<^verbatim>\<open>ino\<close> are
  numbers: the time value of \<^verbatim>\<open>mtime\<close>, the size and the inode.\<close>

definition stat_reads :: "jsval \<Rightarrow> (number \<times> number \<times> number) option" where
  "stat_reads v =
     (case stat_fields v of
        Some (DateValue m, PNumber sz, PNumber i) \<Rightarrow> Some (m, sz, i)
      | _ \<Rightarrow> None)"

text \<open>String conversion of a primitive, as in \<^verbatim>\<open>ino + '-'\<close>.\<close>

fun to_string :: "prim \<Rightarrow> string" where
  "to_string PUndefined = ''undefined''"
| "to_string PNull = ''null''"
| "to_string (PBoolean b) = (if b then ''true'' else ''false'')"
| "to_string (PNumber n) = number_toString 10 n"
| "to_string (PString x) = x"

text \<open>\<^verbatim>\<open>size.toString(16)\<close>, line 180: a TypeError (\<open>None\<close>) on \<^verbatim>\<open>undefined\<close> and \<^verbatim>\<open>null\<close>;
  the \<^verbatim>\<open>toString\<close> of a string and of a boolean takes no radix.\<close>

fun radix_toString :: "nat \<Rightarrow> prim \<Rightarrow> string option" where
  "radix_toString radix PUndefined = None"
| "radix_toString radix PNull = None"
| "radix_toString radix (PBoolean b) = Some (if b then ''true'' else ''false'')"
| "radix_toString radix (PNumber n) = Some (number_toString radix n)"
| "radix_toString radix (PString x) = Some x"

text \<open>The key and the tag of a descriptor with a numeric \<^verbatim>\<open>ino\<close> and \<^verbatim>\<open>size\<close>.\<close>

definition stat_key :: "number \<Rightarrow> number \<Rightarrow> string" where
  "stat_key i m = number_toString 10 i @ ''-'' @ number_toString 10 m"

definition stat_tag :: "number \<Rightarrow> number \<Rightarrow> string" where
  \<open>stat_tag sz m = ''"'' @ number_toString 16 sz @ ''-'' @ number_toString 16 m @ ''"''\<close>

definition stat_fresh :: "int \<Rightarrow> stat_entry option \<Rightarrow> bool" where
  "stat_fresh now cached =
     (case cached of None \<Rightarrow> False | Some c \<Rightarrow> now - timestamp c < STAT_CACHE_TTL)"

text \<open>Lines 192 to 202: above the size threshold, every entry whose age has reached the
  TTL is collected and deleted.\<close>

definition sweep :: "int \<Rightarrow> (string, stat_entry) fmap \<Rightarrow> (string, stat_entry) fmap" where
  "sweep now m =
     (if map_size m > HASH_CACHE_SIZE then
        let keysToDelete =
              ffilter (\<lambda>k. case fmlookup m k of
                              None \<Rightarrow> False
                            | Some v \<Rightarrow> now - timestamp v \<ge> STAT_CACHE_TTL) (fmdom m)
        in fmdrop_fset keysToDelete m
      else m)"

datatype error = TypeError string

text \<open>\<^verbatim>\<open>stattag\<close>. Two steps can raise: \<^verbatim>\<open>stat.mtime.getTime()\<close> at line 164 when
  \<^verbatim>\<open>mtime\<close> is no date, and \<^verbatim>\<open>size.toString(16)\<close> at line 180, on a miss, when \<^verbatim>\<open>size\<close> is
  \<^verbatim>\<open>undefined\<close> or \<^verbatim>\<open>null\<close>. Both are raised by the engine, before the cache is written;
  the model fixes one message for each place.\<close>

definition stattag ::
  "int \<Rightarrow> timeval \<times> prim \<times> prim \<Rightarrow> bool \<Rightarrow> caches \<Rightarrow> error + string \<times> caches" where
  \<open>stattag now st weak s =
     (case st of (mt, sz, i) \<Rightarrow>
        case mt of
          NoDate \<Rightarrow> Inl (TypeError ''stat.mtime.getTime is not a function'')
        | DateValue m \<Rightarrow>
            let key = to_string i @ ''-'' @ number_toString 10 m;
                cached = fmlookup (statCache s) key
            in if stat_fresh now cached
               then Inr (if weak then weakTag (the cached) else strongTag (the cached), s)
               else
                 case radix_toString 16 sz of
                   None \<Rightarrow> Inl (TypeError ''Cannot read properties of undefined'')
                 | Some sizeHex \<Rightarrow>
                     let mtimeHex = number_toString 16 m;
                         t = ''"'' @ sizeHex @ ''-'' @ mtimeHex @ ''"'';
                         wt = ''W/'' @ t;
                         m1 = fmupd key \<lparr>strongTag = t, weakTag = wt, timestamp = now\<rparr>
                                (statCache s)
                     in Inr (if weak then wt else t, s\<lparr>statCache := sweep now m1\<rparr>))\<close>

section \<open>\<^verbatim>\<open>etag\<close>\<close>

text \<open>\<^verbatim>\<open>options\<close> is \<open>Some b\<close> when the caller passes an object whose \<^verbatim>\<open>weak\<close> is the
  boolean \<open>b\<close>, and \<open>None\<close> otherwise.\<close>

fun as_payload :: "jsval \<Rightarrow> payload option" where
  "as_payload (JString s) = Some (Str s)"
| "as_payload (JBuffer a) = Some (Buf a)"
| "as_payload _ = None"

definition etag ::
  "store \<Rightarrow> int \<Rightarrow> jsval \<Rightarrow> bool option \<Rightarrow> caches \<Rightarrow> error + string \<times> caches" where
  "etag h now v options s =
     (if v = JUndefined \<or> v = JNull then Inl (TypeError ''argument entity is required'')
      else
        let isStats = isstats v;
            weak = (case options of Some b \<Rightarrow> b | None \<Rightarrow> isStats)
        in if \<not> isStats \<and> as_payload v = None
           then Inl (TypeError ''argument entity must be string, Buffer, or fs.Stats'')
           else if isStats then
             (case stat_fields v of
                Some st \<Rightarrow> stattag now st weak s
              | None \<Rightarrow> Inl (TypeError ''cannot read properties''))
           else
             (case as_payload v of
                Some e \<Rightarrow> Inr (entitytag h e weak s)
              | None \<Rightarrow> Inl (TypeError ''cannot read properties'')))"

text \<open>A call of \<^verbatim>\<open>etag\<close> together with what it finds: the Buffer contents and the clock.\<close>

record call =
  heap :: store
  clock :: int
  arg :: jsval
  opts :: "bool option"

definition step :: "call \<Rightarrow> caches \<Rightarrow> caches" where
  "step c s =
     (case etag (heap c) (clock c) (arg c) (opts c) s of
        Inl err \<Rightarrow> s
      | Inr (t, s') \<Rightarrow> s')"

definition result :: "call \<Rightarrow> caches \<Rightarrow> error + string" where
  "result c s =
     (case etag (heap c) (clock c) (arg c) (opts c) s of
        Inl err \<Rightarrow> Inl err
      | Inr (t, s') \<Rightarrow> Inr t)"

text \<open>The module state after a sequence of calls, first call first.\<close>

definition run :: "call list \<Rightarrow> caches \<Rightarrow> caches" where
  "run cs s = foldl (\<lambda>s c. step c s) s cs"

section \<open>Calls that reach the content cache\<close>

text \<open>A call reaches \<^verbatim>\<open>hashCache\<close> when its entity is a string or a Buffer of positive
  length. \<open>call_key\<close> is the cache key that call uses, \<open>call_entry\<close> the entry it stores
  on a miss, and \<open>fill\<close> stores the entries of a list of calls in a map.\<close>

definition is_insert :: "call \<Rightarrow> bool" where
  "is_insert c =
     (case as_payload (arg c) of
        Some e \<Rightarrow> entity_length (heap c) e \<noteq> 0
      | None \<Rightarrow> False)"

definition call_key :: "call \<Rightarrow> string" where
  "call_key c = cacheKey (heap c) (the (as_payload (arg c)))"

definition call_entry :: "call \<Rightarrow> hash_entry" where
  "call_entry c =
     \<lparr>entity = the (as_payload (arg c)),
      tag = compute_tag (heap c) (the (as_payload (arg c)))\<rparr>"

definition fill :: "(string, hash_entry) fmap \<Rightarrow> call list \<Rightarrow> (string, hash_entry) fmap" where
  "fill m cs = foldl (\<lambda>m c. fmupd (call_key c) (call_entry c) m) m cs"


text \<open>The content cache is coherent for a store when every entry carries the tag that
  lines 79 to 85 compute for its stored payload in that store.\<close>

definition coherent :: "store \<Rightarrow> caches \<Rightarrow> bool" where
  "coherent h s =
     (\<forall>k c. fmlookup (hashCache s) k = Some c \<longrightarrow> tag c = compute_tag h (entity c))"

text \<open>The same for the entries that store a string; the tag of a string does not depend on
  the store.\<close>

definition strings_coherent :: "caches \<Rightarrow> bool" where
  "strings_coherent s =
     (\<forall>k c x. fmlookup (hashCache s) k = Some c \<longrightarrow> entity c = Str x \<longrightarrow>
        tag c = compute_tag (\<lambda>a. []) (Str x))"

text \<open>The metadata-descriptor shape: \<^verbatim>\<open>ctime\<close> and \<^verbatim>\<open>mtime\<close> are dates, \<^verbatim>\<open>ino\<close> and \<^verbatim>\<open>size\<close>
  are numbers. For a plain object this is the test of \<^verbatim>\<open>isstats\<close>; for an instance of
  \<^verbatim>\<open>fs.Stats\<close> it is a condition on its fields that \<^verbatim>\<open>isstats\<close> does not test.\<close>

fun is_date :: "timeval \<Rightarrow> bool" where
  "is_date (DateValue t) = True"
| "is_date NoDate = False"

fun is_number :: "prim \<Rightarrow> bool" where
  "is_number (PNumber n) = True"
| "is_number _ = False"

fun has_shape :: "jsval \<Rightarrow> bool" where
  "has_shape (JStats st) =
     (is_date (ctime st) \<and> is_date (mtime st) \<and> is_number (ino st) \<and> is_number (size_bytes st))"
| "has_shape (JObject props) =
     (has_date props ''ctime'' \<and> has_date props ''mtime'' \<and>
      has_number props ''ino'' \<and> has_number props ''size'')"
| "has_shape _ = False"

text \<open>The caches after a miss of \<^verbatim>\<open>stattag\<close> on a descriptor with numeric \<^verbatim>\<open>ino\<close> and
  \<^verbatim>\<open>size\<close>: the new entry is stored and the map is swept.\<close>

definition stat_miss_state :: "int \<Rightarrow> number \<Rightarrow> number \<Rightarrow> number \<Rightarrow> caches \<Rightarrow> caches" where
  "stat_miss_state now m sz i s =
     s\<lparr>statCache := sweep now
          (fmupd (stat_key i m)
             \<lparr>strongTag = stat_tag sz m, weakTag = ''W/'' @ stat_tag sz m, timestamp = now\<rparr>
             (statCache s))\<rparr>"

section \<open>Concrete inputs\<close>

text \<open>A descriptor with \<^verbatim>\<open>ino\<close> 1 and \<^verbatim>\<open>mtime\<close> at the epoch, of a given size, and the caches
  after one call on it with size 5 at time 0.\<close>

definition stat_1_0 :: "number \<Rightarrow> jsval" where
  "stat_1_0 sz =
     JStats \<lparr>ctime = DateValue (Integer 0), mtime = DateValue (Integer 0),
             ino = PNumber (Integer 1), size_bytes = PNumber sz\<rparr>"

definition cached_5_0 :: caches where
  \<open>cached_5_0 =
     init\<lparr>statCache :=
       fmupd ''1-0'' \<lparr>strongTag = ''"5-0"'', weakTag = ''W/"5-0"'', timestamp = 0\<rparr> fmempty\<rparr>\<close>

text \<open>Two instances of \<^verbatim>\<open>fs.Stats\<close> without the descriptor shape: one whose \<^verbatim>\<open>size\<close> is
  the string \<^verbatim>\<open>zz\<close>, and one as \<^verbatim>\<open>new fs.Stats()\<close> gives it, with invalid dates and with
  \<^verbatim>\<open>ino\<close> and \<^verbatim>\<open>size\<close> undefined.\<close>

definition stats_zz :: jsval where
  "stats_zz =
     JStats \<lparr>ctime = DateValue (Integer 0), mtime = DateValue (Integer 0),
             ino = PNumber (Integer 1), size_bytes = PString ''zz''\<rparr>"

definition stats_blank :: jsval where
  "stats_blank =
     JStats \<lparr>ctime = DateValue NaN, mtime = DateValue NaN,
             ino = PUndefined, size_bytes = PUndefined\<rparr>"

text \<open>A call on a string, and on the string of \<open>n\<close> letters \<^verbatim>\<open>a\<close>.\<close>

definition string_call :: "jsstring \<Rightarrow> call" where
  "string_call x = \<lparr>heap = \<lambda>a. [], clock = 0, arg = JString x, opts = None\<rparr>"

definition a_call :: "nat \<Rightarrow> call" where
  "a_call n = string_call (replicate n 0x61)"

text \<open>One Buffer object, at address 0, holding \<^verbatim>\<open>abc\<close> and later \<^verbatim>\<open>axc\<close>; a call of
  \<^verbatim>\<open>etag\<close> on that object; and the caches after the call on \<^verbatim>\<open>abc\<close>.\<close>

definition buf_abc :: store where
  "buf_abc = (\<lambda>a. [])(0 := [0x61, 0x62, 0x63])"

definition buf_axc :: store where
  "buf_axc = (\<lambda>a. [])(0 := [0x61, 0x78, 0x63])"

definition buffer_call :: "store \<Rightarrow> call" where
  "buffer_call h = \<lparr>heap = h, clock = 0, arg = JBuffer 0, opts = None\<rparr>"

definition after_abc :: caches where
  \<open>after_abc =
     \<lparr>hashCache = fmupd ''3-97-99'' \<lparr>entity = Buf 0, tag = ''"3-qZk+NkcGgWq6PiVxeFDCbJzQ2J0"''\<rparr> fmempty,
      hashCacheKeys = [''3-97-99''],
      statCache = fmempty\<rparr>\<close>

section \<open>Evaluation lemmas\<close>

lemma digits_small: "2 \<le> radix \<Longrightarrow> n < radix \<Longrightarrow> digits radix n = [digit_char n]"
  by (simp add: digits.simps [of radix n])

lemma digits_step:
  "2 \<le> radix \<Longrightarrow> radix \<le> n \<Longrightarrow>
   digits radix n = digits radix (n div radix) @ [digit_char (n mod radix)]"
  by (simp add: digits.simps [of radix n])

lemma replicate_numeral: "replicate (numeral k) x = x # replicate (pred_numeral k) x"
  by (simp add: numeral_eq_Suc)

lemma schedule_numeral:
  "schedule (numeral k) w =
     schedule (pred_numeral k) (rotl 1 (w ! 2 XOR w ! 7 XOR w ! 13 XOR w ! 15) # w)"
  by (simp add: numeral_eq_Suc)

lemma blocks_one: "length m = 64 \<Longrightarrow> blocks m = [m]"
  by (simp add: blocks.simps [of m] blocks.simps [of "[]"])

lemmas sha1_eval = sha1_def sha1_pad_def bytes_of_u64_def bytes_of_u32_def be32_def rotl_def
  sha1_f_def sha1_k_def replicate_numeral schedule_numeral blocks_one

text \<open>The digest of the empty message, in base64.\<close>

lemma base64_sha1_empty: "base64 (sha1 []) = ''2jmj7l5rSw0yVb/vlWAYkK/YBwk=''"
  by (simp add: sha1_eval base64_char_def)

lemma compute_tag_empty_string: "compute_tag h (Str []) = EMPTY_TAG"
  by (simp add: compute_tag_def base64_sha1_empty digits_small digit_char_def EMPTY_TAG_def)

lemma compute_tag_empty_buffer: "compute_tag (h(a := [])) (Buf a) = EMPTY_TAG"
  by (simp add: compute_tag_def base64_sha1_empty digits_small digit_char_def EMPTY_TAG_def)

lemma stat_key_1_0: "stat_key (Integer 1) (Integer 0) = ''1-0''"
  by (simp add: stat_key_def int_toString_def digits_small digit_char_def)


lemma stat_tag_5_0: \<open>stat_tag (Integer 5) (Integer 0) = ''"5-0"''\<close>
  by (simp add: stat_tag_def int_toString_def digits_small digit_char_def)

lemma stat_tag_7_0: \<open>stat_tag (Integer 7) (Integer 0) = ''"7-0"''\<close>
  by (simp add: stat_tag_def int_toString_def digits_small digit_char_def)

section \<open>The empty payload\<close>

text \<open>
  C9. For the empty string and for a Buffer of length 0, with \<^verbatim>\<open>weak\<close> absent, false or
  true, \<^verbatim>\<open>etag\<close> returns the constant \<^verbatim>\<open>"0-2jmj7l5rSw0yVb/vlWAYkK/YBwk"\<close>, prefixed with
  \<^verbatim>\<open>W/\<close> when \<^verbatim>\<open>weak\<close> is true, and leaves the caches as they are. The constants are the
  tags that lines 79 to 85 compute for a payload of length 0: length \<open>0\<close> in hexadecimal
  and the first 27 characters of the base64 SHA-1 digest of no bytes.
\<close>

theorem C9_empty_fast_path:
  \<open>etag h now (JString []) options s =
     Inr (if options = Some True then WEAK_EMPTY_TAG else EMPTY_TAG, s) \<and>
   etag (h(a := [])) now (JBuffer a) options s =
     Inr (if options = Some True then WEAK_EMPTY_TAG else EMPTY_TAG, s) \<and>
   EMPTY_TAG = ''"0-2jmj7l5rSw0yVb/vlWAYkK/YBwk"'' \<and>
   WEAK_EMPTY_TAG = ''W/"0-2jmj7l5rSw0yVb/vlWAYkK/YBwk"'' \<and>
   EMPTY_TAG = compute_tag h (Str []) \<and>
   EMPTY_TAG = compute_tag (h(a := [])) (Buf a) \<and>
   WEAK_EMPTY_TAG = ''W/'' @ compute_tag h (Str []) \<and>
   WEAK_EMPTY_TAG = ''W/'' @ compute_tag (h(a := [])) (Buf a)\<close>
  by (cases options)
     (simp_all add: etag_def entitytag_def compute_tag_empty_string compute_tag_empty_buffer
        WEAK_EMPTY_TAG_def EMPTY_TAG_def)

section \<open>The dispatcher\<close>

lemma isstats_fields: "isstats v \<Longrightarrow> \<exists>st. stat_fields v = Some st"
  by (cases v)
     (auto simp: has_date_def has_number_def read_date_def read_number_def
           split: option.splits jsval.splits)

lemma stat_reads_fields:
  "stat_reads v = Some (m, sz, i) \<longleftrightarrow> stat_fields v = Some (DateValue m, PNumber sz, PNumber i)"
  by (auto simp: stat_reads_def split: option.splits timeval.splits prim.splits)

lemma isstats_not_payload: "isstats v \<Longrightarrow> as_payload v = None"
  by (cases v) auto

lemma isstats_JObject:
  "isstats (JObject props) \<longleftrightarrow>
     (\<exists>c m i z. map_of props ''ctime'' = Some (JDate c) \<and> map_of props ''mtime'' = Some (JDate m) \<and>
                map_of props ''ino'' = Some (JNumber i) \<and> map_of props ''size'' = Some (JNumber z))"
  by (auto simp: has_date_def has_number_def split: option.splits jsval.splits)

lemma etag_absent:
  "v = JUndefined \<or> v = JNull \<Longrightarrow>
   etag h now v options s = Inl (TypeError ''argument entity is required'')"
  by (auto simp: etag_def)

lemma etag_unsupported:
  "v \<noteq> JUndefined \<Longrightarrow> v \<noteq> JNull \<Longrightarrow> \<not> isstats v \<Longrightarrow> as_payload v = None \<Longrightarrow>
   etag h now v options s =
     Inl (TypeError ''argument entity must be string, Buffer, or fs.Stats'')"
  by (simp add: etag_def)

lemma etag_isstats:
  "isstats v \<Longrightarrow> stat_fields v = Some st \<Longrightarrow>
   etag h now v options s =
     stattag now st (case options of Some b \<Rightarrow> b | None \<Rightarrow> True) s"
  by (cases v) (auto simp: etag_def)

lemma etag_stats:
  "isstats v \<Longrightarrow> stat_reads v = Some (m, sz, i) \<Longrightarrow>
   etag h now v options s =
     stattag now (DateValue m, PNumber sz, PNumber i)
       (case options of Some b \<Rightarrow> b | None \<Rightarrow> True) s"
  by (simp add: stat_reads_fields etag_isstats)

lemma etag_payload:
  "as_payload v = Some e \<Longrightarrow>
   etag h now v options s =
     Inr (entitytag h e (case options of Some b \<Rightarrow> b | None \<Rightarrow> False) s)"
  by (cases v) (auto simp: etag_def)

lemma has_shape_isstats: "has_shape v \<Longrightarrow> isstats v"
  by (cases v) auto

lemma has_shape_reads: "has_shape v \<Longrightarrow> \<exists>m sz i. stat_reads v = Some (m, sz, i)"
proof (cases v)
  case (JStats st)
  assume "has_shape v"
  with JStats show ?thesis
    by (cases "ctime st"; cases "mtime st"; cases "ino st"; cases "size_bytes st")
       (auto simp: stat_reads_def)
next
  case (JObject props)
  assume "has_shape v"
  with JObject show ?thesis
    by (auto simp: stat_reads_def has_date_def has_number_def read_date_def read_number_def
             split: option.splits jsval.splits)
qed auto

lemma has_shape_JStats:
  "has_shape (JStats st) \<longleftrightarrow>
     (\<exists>c m i z. ctime st = DateValue c \<and> mtime st = DateValue m \<and>
                ino st = PNumber i \<and> size_bytes st = PNumber z)"
  by (cases "ctime st"; cases "mtime st"; cases "ino st"; cases "size_bytes st") auto

lemma has_shape_JObject:
  "has_shape (JObject props) \<longleftrightarrow>
     (\<exists>c m i z. map_of props ''ctime'' = Some (JDate c) \<and> map_of props ''mtime'' = Some (JDate m) \<and>
                map_of props ''ino'' = Some (JNumber i) \<and> map_of props ''size'' = Some (JNumber z))"
  using isstats_JObject [of props] by simp

lemma stattag_numeric:
  "\<exists>t s'. stattag now (DateValue m, PNumber sz, PNumber i) weak s = Inr (t, s')"
  by (simp add: stattag_def Let_def)

text \<open>The errors raised inside \<^verbatim>\<open>stattag\<close> are not those of the dispatcher.\<close>

lemma stattag_not_dispatch:
  "stattag now st weak s \<noteq> Inl (TypeError ''argument entity is required'')"
  "stattag now st weak s \<noteq>
     Inl (TypeError ''argument entity must be string, Buffer, or fs.Stats'')"
  by (cases st; auto simp: stattag_def Let_def split: timeval.splits option.splits)+

text \<open>
  C8, as the claim states it, fails. \<^verbatim>\<open>isstats\<close> returns true for every instance of
  \<^verbatim>\<open>fs.Stats\<close> before it looks at any property. An instance whose \<^verbatim>\<open>size\<close> is the string
  \<^verbatim>\<open>zz\<close> has not the descriptor shape and is neither a string nor a Buffer, and it gets
  the tag \<^verbatim>\<open>W/"zz-0"\<close>; the instance with \<^verbatim>\<open>ino\<close> and \<^verbatim>\<open>size\<close> undefined ends in the
  TypeError of \<^verbatim>\<open>size.toString(16)\<close> at line 180, inside \<^verbatim>\<open>stattag\<close>.
\<close>

theorem C8_counterexample:
  \<open>has_shape stats_zz = False \<and>
   result \<lparr>heap = \<lambda>a. [], clock = 0, arg = stats_zz, opts = None\<rparr> init = Inr ''W/"zz-0"'' \<and>
   has_shape stats_blank = False \<and>
   result \<lparr>heap = \<lambda>a. [], clock = 0, arg = stats_blank, opts = None\<rparr> init =
     Inl (TypeError ''Cannot read properties of undefined'')\<close>
  by (simp add: stats_zz_def stats_blank_def result_def etag_def stattag_def stat_fresh_def
        init_def Let_def int_toString_def digits_small digit_char_def)

text \<open>
  C8, amended. \<^verbatim>\<open>etag\<close> raises the TypeError of line 110 exactly when the entity is
  \<^verbatim>\<open>undefined\<close> or \<^verbatim>\<open>null\<close>, and the TypeError of line 121 exactly when the entity is none
  of these and is neither a string, nor a Buffer, nor an instance of \<^verbatim>\<open>fs.Stats\<close>, nor a
  value with the descriptor shape. For a string, a Buffer and a value with the descriptor
  shape it returns a tag and a cache state, so nothing is raised from \<^verbatim>\<open>entitytag\<close> or
  \<^verbatim>\<open>stattag\<close>. The descriptor shape is: \<^verbatim>\<open>ctime\<close> and \<^verbatim>\<open>mtime\<close> are dates, \<^verbatim>\<open>ino\<close> and \<^verbatim>\<open>size\<close>
  are numbers.
\<close>

theorem C8_raises_iff:
  "(etag h now v options s = Inl (TypeError ''argument entity is required'') \<longleftrightarrow>
      (v = JUndefined \<or> v = JNull)) \<and>
   (etag h now v options s =
        Inl (TypeError ''argument entity must be string, Buffer, or fs.Stats'') \<longleftrightarrow>
      (v \<noteq> JUndefined \<and> v \<noteq> JNull \<and> (\<forall>x. v \<noteq> JString x) \<and> (\<forall>a. v \<noteq> JBuffer a) \<and>
       (\<forall>st. v \<noteq> JStats st) \<and> has_shape v = False)) \<and>
   (((\<exists>x. v = JString x) \<or> (\<exists>a. v = JBuffer a) \<or> has_shape v) \<longrightarrow>
      (\<exists>t s'. etag h now v options s = Inr (t, s'))) \<and>
   (has_shape (JStats st) \<longleftrightarrow>
      (\<exists>c m i z. ctime st = DateValue c \<and> mtime st = DateValue m \<and>
                 ino st = PNumber i \<and> size_bytes st = PNumber z)) \<and>
   (has_shape (JObject props) \<longleftrightarrow>
      (\<exists>c m i z. map_of props ''ctime'' = Some (JDate c) \<and>
                 map_of props ''mtime'' = Some (JDate m) \<and>
                 map_of props ''ino'' = Some (JNumber i) \<and>
                 map_of props ''size'' = Some (JNumber z)))"
proof -
  let ?weak = "case options of Some b \<Rightarrow> b | None \<Rightarrow> True"
  let ?required = "Inl (TypeError ''argument entity is required'') :: error + string \<times> caches"
  let ?unsupported =
    "Inl (TypeError ''argument entity must be string, Buffer, or fs.Stats'') :: error + string \<times> caches"
  have payload_iff: "(\<exists>e. as_payload v = Some e) \<longleftrightarrow> ((\<exists>x. v = JString x) \<or> (\<exists>a. v = JBuffer a))"
    by (cases v) auto
  have stats_iff: "isstats v \<longleftrightarrow> ((\<exists>st. v = JStats st) \<or> has_shape v)"
    by (cases v) auto
  have shaped: "has_shape v \<Longrightarrow> \<exists>t s'. etag h now v options s = Inr (t, s')"
  proof -
    assume a: "has_shape v"
    then obtain m sz i where "stat_reads v = Some (m, sz, i)" using has_shape_reads by blast
    with a have "etag h now v options s =
        stattag now (DateValue m, PNumber sz, PNumber i) ?weak s"
      by (intro etag_stats has_shape_isstats)
    with stattag_numeric [of now m sz i ?weak s] show ?thesis by simp
  qed
  consider (absent) "v = JUndefined \<or> v = JNull"
    | (descriptor) "isstats v"
    | (payload) e where "as_payload v = Some e"
    | (other) "v \<noteq> JUndefined" "v \<noteq> JNull" "\<not> isstats v" "as_payload v = None"
    by (cases "as_payload v") auto
  then have main:
    "(etag h now v options s = ?required \<longleftrightarrow> (v = JUndefined \<or> v = JNull)) \<and>
     (etag h now v options s = ?unsupported \<longleftrightarrow>
        (v \<noteq> JUndefined \<and> v \<noteq> JNull \<and> (\<forall>x. v \<noteq> JString x) \<and> (\<forall>a. v \<noteq> JBuffer a) \<and>
         (\<forall>st. v \<noteq> JStats st) \<and> has_shape v = False)) \<and>
     (((\<exists>x. v = JString x) \<or> (\<exists>a. v = JBuffer a) \<or> has_shape v) \<longrightarrow>
        (\<exists>t s'. etag h now v options s = Inr (t, s')))"
  proof cases
    case absent
    then have "etag h now v options s = ?required" by (rule etag_absent)
    with absent show ?thesis by auto
  next
    case descriptor
    then obtain f where "stat_fields v = Some f" using isstats_fields by blast
    with descriptor have e: "etag h now v options s = stattag now f ?weak s"
      by (rule etag_isstats)
    have "etag h now v options s \<noteq> ?required" "etag h now v options s \<noteq> ?unsupported"
      unfolding e by (rule stattag_not_dispatch)+
    moreover from descriptor have "v \<noteq> JUndefined" "v \<noteq> JNull"
      "\<forall>x. v \<noteq> JString x" "\<forall>a. v \<noteq> JBuffer a" by auto
    moreover from descriptor have "(\<exists>st. v = JStats st) \<or> has_shape v"
      using stats_iff by simp
    ultimately show ?thesis using shaped by auto
  next
    case payload
    then have "etag h now v options s =
        Inr (entitytag h e (case options of Some b \<Rightarrow> b | None \<Rightarrow> False) s)"
      by (rule etag_payload)
    moreover obtain t s' where
      "entitytag h e (case options of Some b \<Rightarrow> b | None \<Rightarrow> False) s = (t, s')"
      by (metis surj_pair)
    moreover from payload have "v \<noteq> JUndefined" "v \<noteq> JNull" by auto
    moreover from payload have "(\<exists>x. v = JString x) \<or> (\<exists>a. v = JBuffer a)"
      using payload_iff by blast
    ultimately show ?thesis by auto
  next
    case other
    then have "etag h now v options s = ?unsupported" by (rule etag_unsupported)
    moreover from other have "(\<forall>x. v \<noteq> JString x) \<and> (\<forall>a. v \<noteq> JBuffer a)"
      using payload_iff by auto
    moreover from other have "(\<forall>st. v \<noteq> JStats st) \<and> \<not> has_shape v"
      using stats_iff by auto
    ultimately show ?thesis using other by auto
  qed
  show ?thesis using main has_shape_JStats has_shape_JObject by simp
qed

theorem C8_raises_iff_witness:
  "etag (\<lambda>a. []) 0 JNull None init = Inl (TypeError ''argument entity is required'') \<and>
   etag (\<lambda>a. []) 0 (JNumber (Integer 5)) None init =
     Inl (TypeError ''argument entity must be string, Buffer, or fs.Stats'') \<and>
   etag (\<lambda>a. []) 0 (JObject [(''size'', JNumber (Integer 1))]) None init =
     Inl (TypeError ''argument entity must be string, Buffer, or fs.Stats'') \<and>
   (\<exists>t s'. etag (\<lambda>a. []) 0 (JString [0x61]) None init = Inr (t, s')) \<and>
   (\<exists>t s'. etag (\<lambda>a. []) 0 (stat_1_0 (Integer 0)) None init = Inr (t, s')) \<and>
   (\<exists>t s'. etag (\<lambda>a. []) 0
       (JObject [(''ctime'', JDate (Integer 0)), (''mtime'', JDate (Integer 0)),
                 (''ino'', JNumber (Integer 1)), (''size'', JNumber (Integer 0))])
       None init = Inr (t, s'))"
  using C8_raises_iff [of "\<lambda>a. []" 0 JNull None init]
        C8_raises_iff [of "\<lambda>a. []" 0 "JNumber (Integer 5)" None init]
        C8_raises_iff [of "\<lambda>a. []" 0 "JObject [(''size'', JNumber (Integer 1))]" None init]
        C8_raises_iff [of "\<lambda>a. []" 0 "JString [0x61]" None init]
        C8_raises_iff [of "\<lambda>a. []" 0 "stat_1_0 (Integer 0)" None init]
        C8_raises_iff [of "\<lambda>a. []" 0
          "JObject [(''ctime'', JDate (Integer 0)), (''mtime'', JDate (Integer 0)),
                    (''ino'', JNumber (Integer 1)), (''size'', JNumber (Integer 0))]" None init]
  by (simp add: has_date_def has_number_def stat_1_0_def)

section \<open>The metadata cache\<close>

lemma map_size_empty: "map_size fmempty = 0"
  by (simp add: map_size_def)

lemma map_size_upd:
  "map_size (fmupd k v m) = (if k |\<in>| fmdom m then map_size m else Suc (map_size m))"
  by (simp add: map_size_def fcard_finsert_if)

lemma map_size_drop:
  "map_size (fmdrop k m) = (if k |\<in>| fmdom m then map_size m - 1 else map_size m)"
  by (simp add: map_size_def fcard_fminus_fsingleton_if)

lemma sweep_lookup:
  "fmlookup (sweep now m) k =
     (case fmlookup m k of
        None \<Rightarrow> None
      | Some v \<Rightarrow> if map_size m > HASH_CACHE_SIZE \<and> now - timestamp v \<ge> STAT_CACHE_TTL
                  then None else Some v)"
  by (auto simp: sweep_def Let_def fmlookup_dom_iff split: option.splits)

lemma stattag_hit:
  "fmlookup (statCache s) (stat_key i m) = Some c \<Longrightarrow> now - timestamp c < STAT_CACHE_TTL \<Longrightarrow>
   stattag now (DateValue m, sz, PNumber i) weak s =
     Inr (if weak then weakTag c else strongTag c, s)"
  by (simp add: stattag_def stat_fresh_def stat_key_def)

lemma stattag_miss:
  "\<not> stat_fresh now (fmlookup (statCache s) (stat_key i m)) \<Longrightarrow>
   stattag now (DateValue m, PNumber sz, PNumber i) weak s =
     Inr (if weak then ''W/'' @ stat_tag sz m else stat_tag sz m, stat_miss_state now m sz i s)"
  by (simp add: stattag_def Let_def stat_key_def stat_tag_def stat_miss_state_def)

lemma stattag_miss_entry:
  "fmlookup (statCache (stat_miss_state now m sz i s)) (stat_key i m) =
     Some \<lparr>strongTag = stat_tag sz m, weakTag = ''W/'' @ stat_tag sz m, timestamp = now\<rparr>"
  by (simp add: stat_miss_state_def sweep_lookup STAT_CACHE_TTL_def)


text \<open>
  C5. For a descriptor whose key \<^verbatim>\<open>ino + '-' + mtime\<close> has an entry in \<^verbatim>\<open>statCache\<close>:
  when the age \<open>now - timestamp\<close> of the entry is below 5000, the call returns the weak or
  the strong tag stored in the entry and leaves the caches as they are; when the age is
  5000 or more, the call returns the tag computed from the descriptor, and afterwards the
  entry of the key holds the strong and the weak tag just computed and the time of the call.
\<close>

theorem C5_stat_cache_ttl:
  assumes "isstats v"
    and "stat_reads v = Some (m, sz, i)"
    and "fmlookup (statCache s) (stat_key i m) = Some c"
  shows "(now - timestamp c < 5000 \<longrightarrow>
            etag h now v options s =
              Inr (if (case options of Some b \<Rightarrow> b | None \<Rightarrow> True)
                   then weakTag c else strongTag c, s)) \<and>
         (now - timestamp c \<ge> 5000 \<longrightarrow>
            (\<exists>s'. etag h now v options s =
                    Inr (if (case options of Some b \<Rightarrow> b | None \<Rightarrow> True)
                         then ''W/'' @ stat_tag sz m else stat_tag sz m, s') \<and>
                  fmlookup (statCache s') (stat_key i m) =
                    Some \<lparr>strongTag = stat_tag sz m, weakTag = ''W/'' @ stat_tag sz m,
                          timestamp = now\<rparr>))"
proof (intro conjI impI)
  assume "now - timestamp c < 5000"
  then show "etag h now v options s =
      Inr (if (case options of Some b \<Rightarrow> b | None \<Rightarrow> True) then weakTag c else strongTag c, s)"
    using assms by (simp add: etag_stats stattag_hit STAT_CACHE_TTL_def)
next
  assume old: "now - timestamp c \<ge> 5000"
  let ?weak = "case options of Some b \<Rightarrow> b | None \<Rightarrow> True"
  from old assms(3) have stale: "\<not> stat_fresh now (fmlookup (statCache s) (stat_key i m))"
    by (simp add: stat_fresh_def STAT_CACHE_TTL_def)
  have "etag h now v options s = stattag now (DateValue m, PNumber sz, PNumber i) ?weak s"
    using assms(1,2) by (rule etag_stats)
  then have "etag h now v options s =
      Inr (if ?weak then ''W/'' @ stat_tag sz m else stat_tag sz m,
           stat_miss_state now m sz i s)"
    using stale by (simp add: stattag_miss)
  with stattag_miss_entry [of now m sz i s]
  show "\<exists>s'. etag h now v options s =
        Inr (if ?weak then ''W/'' @ stat_tag sz m else stat_tag sz m, s') \<and>
      fmlookup (statCache s') (stat_key i m) =
        Some \<lparr>strongTag = stat_tag sz m, weakTag = ''W/'' @ stat_tag sz m, timestamp = now\<rparr>"
    by blast
qed

theorem C5_stat_cache_ttl_witness:
  \<open>etag (\<lambda>a. []) 4999 (stat_1_0 (Integer 7)) None cached_5_0 = Inr (''W/"5-0"'', cached_5_0) \<and>
   etag (\<lambda>a. []) 4999 (stat_1_0 (Integer 7)) (Some False) cached_5_0 = Inr (''"5-0"'', cached_5_0) \<and>
   (\<exists>s'. etag (\<lambda>a. []) 5000 (stat_1_0 (Integer 7)) None cached_5_0 = Inr (''W/"7-0"'', s') \<and>
         fmlookup (statCache s') ''1-0'' =
           Some \<lparr>strongTag = ''"7-0"'', weakTag = ''W/"7-0"'', timestamp = 5000\<rparr>)\<close>
proof -
  have d: "isstats (stat_1_0 (Integer 7))"
    and r: "stat_reads (stat_1_0 (Integer 7)) = Some (Integer 0, Integer 7, Integer 1)"
    by (simp_all add: stat_1_0_def stat_reads_def)
  have c: \<open>fmlookup (statCache cached_5_0) (stat_key (Integer 1) (Integer 0)) =
      Some \<lparr>strongTag = ''"5-0"'', weakTag = ''W/"5-0"'', timestamp = 0\<rparr>\<close>
    by (simp add: cached_5_0_def stat_key_1_0)
  show ?thesis
    using C5_stat_cache_ttl [OF d r c, of 4999 "\<lambda>a. []" None]
          C5_stat_cache_ttl [OF d r c, of 4999 "\<lambda>a. []" "Some False"]
          C5_stat_cache_ttl [OF d r c, of 5000 "\<lambda>a. []" None]
    by (simp add: stat_key_1_0 stat_tag_7_0)
qed





section \<open>Decimal and hexadecimal rendering is injective\<close>

lemma digit_char_inj:
  assumes "a < 36" "b < 36" "digit_char a = digit_char b"
  shows "a = b"
proof -
  have d: "distinct ''0123456789abcdefghijklmnopqrstuvwxyz''" by simp
  have "a < length ''0123456789abcdefghijklmnopqrstuvwxyz''"
       "b < length ''0123456789abcdefghijklmnopqrstuvwxyz''"
    using assms(1,2) by simp_all
  with assms(3) d show "a = b"
    unfolding digit_char_def by (simp only: nth_eq_iff_index_eq)
qed

lemma digits_nonempty: "2 \<le> radix \<Longrightarrow> digits radix n \<noteq> []"
  by (cases "n < radix") (simp_all add: digits_small [of radix n] digits_step [of radix n])

lemma digits_long: "2 \<le> radix \<Longrightarrow> radix \<le> n \<Longrightarrow> 2 \<le> length (digits radix n)"
  using digits_nonempty [of radix "n div radix"]
  by (cases "digits radix (n div radix)") (simp_all add: digits_step [of radix n])

lemma digits_inj:
  "2 \<le> radix \<Longrightarrow> radix \<le> 36 \<Longrightarrow> digits radix m = digits radix n \<Longrightarrow> m = n"
proof (induction radix m arbitrary: n rule: digits.induct)
  case (1 radix m)
  note r = \<open>2 \<le> radix\<close> \<open>radix \<le> 36\<close>
  note eq = \<open>digits radix m = digits radix n\<close>
  show ?case
  proof (cases "m < radix")
    case small: True
    show ?thesis
    proof (cases "n < radix")
      case True
      with small r eq have "digit_char m = digit_char n"
        by (simp add: digits_small [of radix m] digits_small [of radix n])
      moreover from small True r have "m < 36" "n < 36" by simp_all
      ultimately show ?thesis by (rule digit_char_inj [rotated 2])
    next
      case False
      with r have "2 \<le> length (digits radix n)" by (simp add: digits_long)
      moreover from small r have "length (digits radix m) = 1"
        by (simp add: digits_small [of radix m])
      ultimately show ?thesis using eq by simp
    qed
  next
    case big: False
    show ?thesis
    proof (cases "n < radix")
      case True
      from big r have "2 \<le> length (digits radix m)" by (simp add: digits_long)
      moreover from True r have "length (digits radix n) = 1"
        by (simp add: digits_small [of radix n])
      ultimately show ?thesis using eq by simp
    next
      case False
      with big r eq have e: "digits radix (m div radix) = digits radix (n div radix)"
        and l: "digit_char (m mod radix) = digit_char (n mod radix)"
        by (simp_all add: digits_step [of radix m] digits_step [of radix n])
      from r big have "m div radix = n div radix"
        by (intro 1(1) [OF _ _ r e]) simp_all
      moreover have "m mod radix < 36" "n mod radix < 36"
        using r by (simp_all add: less_le_trans [OF mod_less_divisor])
      with l have "m mod radix = n mod radix" by (rule digit_char_inj [rotated 2])
      ultimately show ?thesis by (metis div_mult_mod_eq)
    qed
  qed
qed




section \<open>The content cache\<close>

lemma entitytag_empty:
  "entity_length h e = 0 \<Longrightarrow>
   entitytag h e weak s = (if weak then WEAK_EMPTY_TAG else EMPTY_TAG, s)"
  by (simp add: entitytag_def)

lemma entitytag_hit:
  "entity_length h e \<noteq> 0 \<Longrightarrow> fmlookup (hashCache s) (cacheKey h e) = Some c \<Longrightarrow>
   entity c = e \<Longrightarrow>
   entitytag h e weak s = (if weak then ''W/'' @ tag c else tag c, s)"
  by (simp add: entitytag_def hash_hit_def)

lemma entitytag_miss:
  "entity_length h e \<noteq> 0 \<Longrightarrow> \<not> hash_hit (fmlookup (hashCache s) (cacheKey h e)) e \<Longrightarrow>
   entitytag h e weak s =
     (if weak then ''W/'' @ compute_tag h e else compute_tag h e,
      (evict s)\<lparr>hashCacheKeys := hashCacheKeys (evict s) @ [cacheKey h e],
                hashCache := fmupd (cacheKey h e) \<lparr>entity = e, tag = compute_tag h e\<rparr>
                               (hashCache (evict s))\<rparr>)"
  by (simp add: entitytag_def Let_def)

lemma evict_below: "map_size (hashCache s) < HASH_CACHE_SIZE \<Longrightarrow> evict s = s"
  by (simp add: evict_def)

lemma evict_full:
  "HASH_CACHE_SIZE \<le> map_size (hashCache s) \<Longrightarrow> hashCacheKeys s = k # ks \<Longrightarrow>
   evict s = s\<lparr>hashCache := fmdrop k (hashCache s), hashCacheKeys := ks\<rparr>"
  by (simp add: evict_def)

lemma evict_statCache: "statCache (evict s) = statCache s"
  by (simp add: evict_def split: list.splits)

lemma step_miss:
  assumes "is_insert c"
    and "\<not> hash_hit (fmlookup (hashCache s) (call_key c)) (entity (call_entry c))"
  shows "step c s =
     (evict s)\<lparr>hashCacheKeys := hashCacheKeys (evict s) @ [call_key c],
               hashCache := fmupd (call_key c) (call_entry c) (hashCache (evict s))\<rparr>"
proof -
  from assms(1) obtain e where e: "as_payload (arg c) = Some e" "entity_length (heap c) e \<noteq> 0"
    by (auto simp: is_insert_def split: option.splits)
  with assms(2) have "\<not> hash_hit (fmlookup (hashCache s) (cacheKey (heap c) e)) e"
    by (simp add: call_key_def call_entry_def)
  with e show ?thesis
    by (simp add: step_def etag_payload entitytag_miss call_key_def call_entry_def)
qed

lemma step_fresh_key:
  assumes "is_insert c" and "call_key c |\<notin>| fmdom (hashCache s)"
    and "map_size (hashCache s) < HASH_CACHE_SIZE"
  shows "step c s =
     s\<lparr>hashCacheKeys := hashCacheKeys s @ [call_key c],
       hashCache := fmupd (call_key c) (call_entry c) (hashCache s)\<rparr>"
proof -
  from assms(2) have "\<not> hash_hit (fmlookup (hashCache s) (call_key c)) (entity (call_entry c))"
    by (simp add: hash_hit_def fmdom_notD)
  with assms(1) show ?thesis
    by (simp add: step_miss evict_below [OF assms(3)])
qed

lemma run_Cons: "run (c # cs) s = run cs (step c s)"
  by (simp add: run_def)

lemma run_Nil: "run [] s = s"
  by (simp add: run_def)

lemma run_append: "run (cs @ ds) s = run ds (run cs s)"
  by (simp add: run_def)

lemma step_evicting:
  assumes "is_insert c"
    and "call_key c |\<notin>| fmdom (hashCache s)"
    and "HASH_CACHE_SIZE \<le> map_size (hashCache s)"
    and "hashCacheKeys s = k # ks"
  shows "hashCache (step c s) = fmupd (call_key c) (call_entry c) (fmdrop k (hashCache s))"
    and "hashCacheKeys (step c s) = ks @ [call_key c]"
proof -
  from assms(2) have miss: "\<not> hash_hit (fmlookup (hashCache s) (call_key c)) (entity (call_entry c))"
    by (simp add: hash_hit_def fmdom_notD)
  have ev: "evict s = s\<lparr>hashCache := fmdrop k (hashCache s), hashCacheKeys := ks\<rparr>"
    using assms(3,4) by (rule evict_full)
  have c: "hashCache (evict s) = fmdrop k (hashCache s)" and k: "hashCacheKeys (evict s) = ks"
    by (simp_all add: ev)
  show "hashCache (step c s) = fmupd (call_key c) (call_entry c) (fmdrop k (hashCache s))"
    by (subst step_miss [OF assms(1) miss]) (simp add: c)
  show "hashCacheKeys (step c s) = ks @ [call_key c]"
    by (subst step_miss [OF assms(1) miss]) (simp add: k)
qed

lemma fill_Nil: "fill m [] = m"
  by (simp add: fill_def)

lemma fill_Cons: "fill m (c # cs) = fill (fmupd (call_key c) (call_entry c) m) cs"
  by (simp add: fill_def)

lemma fmdom_fill: "fmdom (fill m cs) = fmdom m |\<union>| fset_of_list (map call_key cs)"
  by (induction cs arbitrary: m) (auto simp: fill_Nil fill_Cons)

lemma fill_lookup_other:
  "k \<notin> call_key ` set cs \<Longrightarrow> fmlookup (fill m cs) k = fmlookup m k"
  by (induction cs arbitrary: m) (auto simp: fill_Nil fill_Cons)

lemma fill_lookup:
  "distinct (map call_key cs) \<Longrightarrow> c \<in> set cs \<Longrightarrow>
   fmlookup (fill m cs) (call_key c) = Some (call_entry c)"
proof (induction cs arbitrary: m)
  case Nil
  then show ?case by simp
next
  case (Cons d cs)
  show ?case
  proof (cases "c \<in> set cs")
    case True
    with Cons show ?thesis by (simp add: fill_Cons)
  next
    case False
    with Cons.prems have "c = d" and "call_key d \<notin> call_key ` set cs" by auto
    then show ?thesis by (simp add: fill_Cons fill_lookup_other)
  qed
qed

lemma map_size_fill:
  "distinct (map call_key cs) \<Longrightarrow> (\<forall>c \<in> set cs. call_key c |\<notin>| fmdom m) \<Longrightarrow>
   map_size (fill m cs) = map_size m + length cs"
proof (induction cs arbitrary: m)
  case Nil
  then show ?case by (simp add: fill_Nil)
next
  case (Cons d cs)
  from Cons.prems(1) have ne: "\<forall>c \<in> set cs. call_key c \<noteq> call_key d"
    by (metis distinct.simps(2) image_eqI list.simps(9) set_map)
  have "map_size (fill (fmupd (call_key d) (call_entry d) m) cs) =
        map_size (fmupd (call_key d) (call_entry d) m) + length cs"
    using Cons.prems ne by (intro Cons.IH) auto
  with Cons.prems show ?case by (simp add: fill_Cons map_size_upd)
qed

lemma run_fill:
  assumes "\<forall>c \<in> set cs. is_insert c"
    and "distinct (map call_key cs)"
    and "\<forall>c \<in> set cs. call_key c |\<notin>| fmdom (hashCache s)"
    and "map_size (hashCache s) + length cs \<le> HASH_CACHE_SIZE"
  shows "run cs s =
     s\<lparr>hashCacheKeys := hashCacheKeys s @ map call_key cs,
       hashCache := fill (hashCache s) cs\<rparr>"
  using assms
proof (induction cs arbitrary: s)
  case Nil
  then show ?case by (simp add: run_Nil fill_Nil)
next
  case (Cons c cs)
  let ?s1 = "s\<lparr>hashCacheKeys := hashCacheKeys s @ [call_key c],
               hashCache := fmupd (call_key c) (call_entry c) (hashCache s)\<rparr>"
  from Cons.prems have st: "step c s = ?s1"
    by (intro step_fresh_key) auto
  from Cons.prems(2) have ne: "\<forall>d \<in> set cs. call_key d \<noteq> call_key c"
    by (metis distinct.simps(2) image_eqI list.simps(9) set_map)
  have "run cs ?s1 =
      ?s1\<lparr>hashCacheKeys := hashCacheKeys ?s1 @ map call_key cs,
          hashCache := fill (hashCache ?s1) cs\<rparr>"
    using Cons.prems ne by (intro Cons.IH) (auto simp: map_size_upd)
  then show ?case by (simp add: run_Cons st fill_Cons)
qed
lemma fmdom_fill_mem: "k |\<in>| fmdom (fill m cs) \<longleftrightarrow> k |\<in>| fmdom m \<or> k \<in> call_key ` set cs"
  by (simp add: fmdom_fill fset_of_list.rep_eq)


subsection \<open>Keys of the strings of letters \<^verbatim>\<open>a\<close>\<close>

lemma utf8_unit_a: "utf8_unit 0x61 = [0x61]"
  by (simp add: utf8_unit_def is_high_surrogate_def is_low_surrogate_def utf8_code_point_def)

lemma utf8_encode_a: "utf8_encode (replicate n 0x61) = replicate n 0x61"
proof (induction n rule: less_induct)
  case (less n)
  show ?case
  proof (cases n)
    case 0
    then show ?thesis by simp
  next
    case (Suc k)
    show ?thesis
    proof (cases k)
      case 0
      with Suc show ?thesis by (simp add: utf8_unit_a)
    next
      case (Suc j)
      have "utf8_encode (replicate (Suc j) 0x61) = replicate (Suc j) 0x61"
        using less [of "Suc j"] \<open>n = Suc k\<close> Suc by simp
      with \<open>n = Suc k\<close> Suc show ?thesis
        by (simp add: utf8_unit_a is_high_surrogate_def)
    qed
  qed
qed

lemma digits_97: "digits 10 97 = ''97''"
  by (simp add: digits_step [of 10 97] digits_small [of 10 9] digit_char_def)

lemma call_key_a: "0 < n \<Longrightarrow> call_key (a_call n) = digits 10 n @ ''-97-97''"
  by (simp add: call_key_def a_call_def string_call_def utf8_encode_a charCodeAt_def
        int_toString_def digits_97)

lemma is_insert_a: "0 < n \<Longrightarrow> is_insert (a_call n)"
  by (simp add: is_insert_def a_call_def string_call_def)

lemma call_key_a_inj: "0 < m \<Longrightarrow> 0 < n \<Longrightarrow> call_key (a_call m) = call_key (a_call n) \<Longrightarrow> m = n"
  using digits_inj [of 10 m n] by (simp add: call_key_a)

lemma distinct_keys_a: "0 < i \<Longrightarrow> distinct (map call_key (map a_call [i..<j]))"
  unfolding map_map
proof (rule iffD2 [OF distinct_map], intro conjI inj_onI)
  show "distinct [i..<j]" by simp
next
  fix x y
  assume "0 < i" "x \<in> set [i..<j]" "y \<in> set [i..<j]"
    and "(call_key \<circ> a_call) x = (call_key \<circ> a_call) y"
  then show "x = y" by (intro call_key_a_inj) auto
qed
lemma call_key_aba: "call_key (string_call [0x61, 0x62, 0x61]) = call_key (a_call 3)"
  by (simp add: call_key_def string_call_def a_call_def utf8_unit_a utf8_unit_def
        utf8_code_point_def is_high_surrogate_def is_low_surrogate_def charCodeAt_def
        numeral_3_eq_3)

lemma call_key_aca: "call_key (string_call [0x61, 0x63, 0x61]) = call_key (a_call 3)"
  by (simp add: call_key_def string_call_def a_call_def utf8_unit_a utf8_unit_def
        utf8_code_point_def is_high_surrogate_def is_low_surrogate_def charCodeAt_def
        numeral_3_eq_3)

lemma is_insert_string: "x \<noteq> [] \<Longrightarrow> is_insert (string_call x)"
  by (simp add: is_insert_def string_call_def)

lemma key_a_in_image:
  "0 < n \<Longrightarrow> 0 < i \<Longrightarrow> call_key (a_call n) \<in> call_key ` set (map a_call [i..<j]) \<longleftrightarrow> i \<le> n \<and> n < j"
proof
  assume n: "0 < n" and i: "0 < i"
    and "call_key (a_call n) \<in> call_key ` set (map a_call [i..<j])"
  then obtain m where m: "i \<le> m" "m < j" "call_key (a_call n) = call_key (a_call m)"
    by auto
  with n i have "n = m" by (intro call_key_a_inj) auto
  with m show "i \<le> n \<and> n < j" by simp
next
  assume "i \<le> n \<and> n < j"
  then show "call_key (a_call n) \<in> call_key ` set (map a_call [i..<j])" by auto
qed
lemma key_a_in_fill:
  "0 < n \<Longrightarrow> 0 < i \<Longrightarrow>
   call_key (a_call n) |\<in>| fmdom (fill m (map a_call [i..<j])) \<longleftrightarrow>
     call_key (a_call n) |\<in>| fmdom m \<or> (i \<le> n \<and> n < j)"
  by (simp only: fmdom_fill_mem key_a_in_image)

lemma key_a_eq: "0 < m \<Longrightarrow> 0 < n \<Longrightarrow> call_key (a_call m) = call_key (a_call n) \<longleftrightarrow> m = n"
  using call_key_a_inj by blast

lemma upt_split_last2: "i \<le> j \<Longrightarrow> [i..<j + 2] = [i..<j] @ [j, j + 1]"
  by (simp add: numeral_2_eq_2)

lemma digits_1001: "digits 10 1001 = ''1001''"
  by (simp add: digits_step [of 10 1001] digits_step [of 10 100] digits_step [of 10 10]
        digits_small [of 10 "Suc 0"] digit_char_def)


subsection \<open>Eviction\<close>

text \<open>
  C4. Starting with \<^verbatim>\<open>hashCache\<close> and \<^verbatim>\<open>hashCacheKeys\<close> empty, after \<open>HASH_CACHE_SIZE + 1\<close>
  calls on payloads of positive length whose cache keys are pairwise distinct, the key of
  the first call is no longer in the map, the key of every other call holds the entry that
  call stored, and the map has \<open>HASH_CACHE_SIZE\<close> entries.
\<close>

theorem C4_fifo_eviction:
  assumes "length cs = HASH_CACHE_SIZE + 1"
    and "\<forall>c \<in> set cs. is_insert c"
    and "distinct (map call_key cs)"
    and "hashCache s = fmempty"
    and "hashCacheKeys s = []"
  shows "fmlookup (hashCache (run cs s)) (call_key (hd cs)) = None \<and>
         (\<forall>c \<in> set (tl cs). fmlookup (hashCache (run cs s)) (call_key c) = Some (call_entry c)) \<and>
         map_size (hashCache (run cs s)) = HASH_CACHE_SIZE"
proof -
  from assms(1) obtain c0 rest where cs0: "cs = c0 # rest" and lr: "length rest = HASH_CACHE_SIZE"
    by (cases cs) auto
  from lr have "rest \<noteq> []" by (auto simp: HASH_CACHE_SIZE_def)
  then obtain mid cl where rest: "rest = mid @ [cl]"
    by (metis rev_exhaust)
  let ?front = "c0 # mid"
  have cs: "cs = ?front @ [cl]" by (simp add: cs0 rest)
  have lf: "length ?front = HASH_CACHE_SIZE" using lr rest by simp
  have df: "distinct (map call_key ?front)" using assms(3) cs by simp
  have kl: "call_key cl \<notin> call_key ` set ?front" using assms(3) cs by auto
  have k0: "call_key c0 \<notin> call_key ` set mid" using assms(3) cs by auto
  let ?s1 = "s\<lparr>hashCacheKeys := hashCacheKeys s @ map call_key ?front,
               hashCache := fill (hashCache s) ?front\<rparr>"
  have r1: "run ?front s = ?s1"
    using assms(2) df assms(4) lf unfolding cs
    by (intro run_fill) (auto simp: map_size_empty)
  have size1: "map_size (hashCache ?s1) = HASH_CACHE_SIZE"
    using map_size_fill [OF df, of fmempty] lf assms(4) by (simp add: map_size_empty)
  have keys1: "hashCacheKeys ?s1 = call_key c0 # map call_key mid"
    using assms(5) by simp
  let ?m1 = "fill fmempty ?front"
  have ev: "evict ?s1 = ?s1\<lparr>hashCache := fmdrop (call_key c0) (hashCache ?s1),
                            hashCacheKeys := map call_key mid\<rparr>"
    using size1 keys1 by (intro evict_full) simp_all
  have fresh: "call_key cl |\<notin>| fmdom (hashCache ?s1)"
    using kl assms(4) by (simp add: fmdom_fill_mem)
  then have miss: "\<not> hash_hit (fmlookup (hashCache ?s1) (call_key cl)) (entity (call_entry cl))"
    by (simp add: hash_hit_def fmdom_notD)
  have ins: "is_insert cl" using assms(2) cs by simp
  let ?final = "fmupd (call_key cl) (call_entry cl) (fmdrop (call_key c0) ?m1)"
  have last: "run cs s = step cl ?s1"
    unfolding cs run_append r1 by (simp add: run_Cons run_Nil)
  have st: "hashCache (step cl ?s1) =
      fmupd (call_key cl) (call_entry cl) (hashCache (evict ?s1))"
    by (subst step_miss [OF ins miss]) simp
  have "hashCache (evict ?s1) = fmdrop (call_key c0) (fill (hashCache s) ?front)"
    by (subst ev) simp
  with st have final: "hashCache (run cs s) = ?final"
    by (simp only: last assms(4))
  have ne: "call_key c0 \<noteq> call_key cl" using kl by auto
  have first: "fmlookup ?final (call_key (hd cs)) = None"
    using ne by (simp add: cs0)
  have others: "\<forall>c \<in> set (tl cs). fmlookup ?final (call_key c) = Some (call_entry c)"
  proof
    fix c assume "c \<in> set (tl cs)"
    then have "c \<in> set mid \<or> c = cl" by (auto simp: cs0 rest)
    then show "fmlookup ?final (call_key c) = Some (call_entry c)"
    proof
      assume m: "c \<in> set mid"
      then have "call_key c \<in> call_key ` set mid" by (rule imageI)
      then have "call_key c \<noteq> call_key cl" "call_key c \<noteq> call_key c0"
        using kl k0 by auto
      moreover have "fmlookup ?m1 (call_key c) = Some (call_entry c)"
        using df m by (intro fill_lookup) auto
      ultimately show ?thesis by simp
    next
      assume "c = cl"
      then show ?thesis by simp
    qed
  qed
  have "call_key c0 |\<in>| fmdom ?m1" by (simp add: fmdom_fill_mem)
  moreover have "call_key cl |\<notin>| fmdom (fmdrop (call_key c0) ?m1)"
    using fresh assms(4) by simp
  moreover have "map_size ?m1 = HASH_CACHE_SIZE" using size1 assms(4) by simp
  ultimately have size: "map_size ?final = HASH_CACHE_SIZE"
    by (simp add: map_size_upd map_size_drop HASH_CACHE_SIZE_def)
  show ?thesis using first others size by (simp only: final) 
qed

theorem C4_fifo_eviction_witness:
  "fmlookup (hashCache (run (map a_call [1..<HASH_CACHE_SIZE + 2]) init)) ''1-97-97'' = None \<and>
   fmlookup (hashCache (run (map a_call [1..<HASH_CACHE_SIZE + 2]) init)) ''2-97-97'' =
     Some \<lparr>entity = Str [0x61, 0x61], tag = compute_tag (\<lambda>a. []) (Str [0x61, 0x61])\<rparr> \<and>
   fmlookup (hashCache (run (map a_call [1..<HASH_CACHE_SIZE + 2]) init)) ''1001-97-97'' =
     Some \<lparr>entity = Str (replicate 1001 0x61),
           tag = compute_tag (\<lambda>a. []) (Str (replicate 1001 0x61))\<rparr> \<and>
   map_size (hashCache (run (map a_call [1..<HASH_CACHE_SIZE + 2]) init)) = 1000"
proof -
  let ?cs = "map a_call [1..<HASH_CACHE_SIZE + 2]"
  have len: "length ?cs = HASH_CACHE_SIZE + 1" by simp
  have ins: "\<forall>c \<in> set ?cs. is_insert c" by (auto simp: is_insert_a)
  have dis: "distinct (map call_key ?cs)" by (rule distinct_keys_a) simp
  have e1: "hashCache init = fmempty" and e2: "hashCacheKeys init = []"
    by (simp_all add: init_def)
  have u: "[1..<HASH_CACHE_SIZE + 2] = 1 # [Suc 1..<HASH_CACHE_SIZE + 2]"
    by (rule upt_conv_Cons) simp
  have hd: "hd ?cs = a_call 1" and tl: "tl ?cs = map a_call [Suc 1..<HASH_CACHE_SIZE + 2]"
    by (simp_all only: u list.map list.sel)
  have i2: "2 \<in> set [Suc 1..<HASH_CACHE_SIZE + 2]"
    and i1001: "1001 \<in> set [Suc 1..<HASH_CACHE_SIZE + 2]"
    by (simp_all add: HASH_CACHE_SIZE_def)
  have "a_call 2 \<in> a_call ` set [Suc 1..<HASH_CACHE_SIZE + 2]"
    "a_call 1001 \<in> a_call ` set [Suc 1..<HASH_CACHE_SIZE + 2]"
    using i2 i1001 by (blast intro: imageI)+
  then have m2: "a_call 2 \<in> set (tl ?cs)" and m1001: "a_call 1001 \<in> set (tl ?cs)"
    by (simp_all only: tl set_map)
  have k1: "call_key (a_call 1) = ''1-97-97''"
    and k2: "call_key (a_call 2) = ''2-97-97''"
    and k1001: "call_key (a_call 1001) = ''1001-97-97''"
    by (simp_all add: call_key_a digits_small [of 10 "Suc 0"] digits_small [of 10 2] digits_1001
          digit_char_def)
  have en2: "call_entry (a_call 2) =
      \<lparr>entity = Str [0x61, 0x61], tag = compute_tag (\<lambda>a. []) (Str [0x61, 0x61])\<rparr>"
    by (simp add: call_entry_def a_call_def string_call_def numeral_2_eq_2)
  have en1001: "call_entry (a_call 1001) =
      \<lparr>entity = Str (replicate 1001 0x61),
       tag = compute_tag (\<lambda>a. []) (Str (replicate 1001 0x61))\<rparr>"
    by (simp add: call_entry_def a_call_def string_call_def)
  have sz: "HASH_CACHE_SIZE = 1000" by (simp add: HASH_CACHE_SIZE_def)
  note main = C4_fifo_eviction [OF len ins dis e1 e2]
  from main have "fmlookup (hashCache (run ?cs init)) (call_key (hd ?cs)) = None" by blast
  then have a: "fmlookup (hashCache (run ?cs init)) ''1-97-97'' = None"
    by (simp only: hd k1)
  from main m2 have "fmlookup (hashCache (run ?cs init)) (call_key (a_call 2)) =
      Some (call_entry (a_call 2))" by blast
  then have b: "fmlookup (hashCache (run ?cs init)) ''2-97-97'' =
      Some \<lparr>entity = Str [0x61, 0x61], tag = compute_tag (\<lambda>a. []) (Str [0x61, 0x61])\<rparr>"
    by (simp only: k2 en2)
  from main m1001 have "fmlookup (hashCache (run ?cs init)) (call_key (a_call 1001)) =
      Some (call_entry (a_call 1001))" by blast
  then have c: "fmlookup (hashCache (run ?cs init)) ''1001-97-97'' =
      Some \<lparr>entity = Str (replicate 1001 0x61),
            tag = compute_tag (\<lambda>a. []) (Str (replicate 1001 0x61))\<rparr>"
    by (simp only: k1001 en1001)
  from main have "map_size (hashCache (run ?cs init)) = HASH_CACHE_SIZE" by blast
  then have d: "map_size (hashCache (run ?cs init)) = 1000" by (simp only: sz)
  from a b c d show ?thesis by blast
qed

text \<open>
  C2 does not hold of the code. A miss on a key that is already in the map (same key,
  other payload) pushes the key onto \<^verbatim>\<open>hashCacheKeys\<close> a second time. When the map is at
  capacity and the key shifted off the list is such a duplicate whose entry is already
  gone, nothing is deleted and the map grows. After the strings \<^verbatim>\<open>aba\<close> and \<^verbatim>\<open>aca\<close> and
  the strings of 4 to 1004 letters \<^verbatim>\<open>a\<close>, the map has 1001 entries.
\<close>

theorem C2_capacity_exceeded:
  "map_size (hashCache (run
      (string_call [0x61, 0x62, 0x61] # string_call [0x61, 0x63, 0x61] #
       map a_call [4..<HASH_CACHE_SIZE + 5]) init)) = HASH_CACHE_SIZE + 1 \<and>
   HASH_CACHE_SIZE = 1000"
proof -
  let ?N = HASH_CACHE_SIZE
  let ?k = "\<lambda>n. call_key (a_call n)"
  let ?aba = "string_call [0x61, 0x62, 0x61]"
  let ?aca = "string_call [0x61, 0x63, 0x61]"
  let ?mid = "map a_call [4..<?N + 3]"
  have N: "1 \<le> ?N" by (simp add: HASH_CACHE_SIZE_def)
  have kne: "\<And>m n. 0 < m \<Longrightarrow> 0 < n \<Longrightarrow> m \<noteq> n \<Longrightarrow> ?k m \<noteq> ?k n"
    using call_key_a_inj by blast
  \<comment> \<open>the first call inserts key 3-97-97\<close>
  define s1 where "s1 = step ?aba init"
  have "step ?aba init =
      init\<lparr>hashCacheKeys := hashCacheKeys init @ [call_key ?aba],
           hashCache := fmupd (call_key ?aba) (call_entry ?aba) (hashCache init)\<rparr>"
    using N by (intro step_fresh_key) (simp_all add: is_insert_string init_def map_size_empty)
  then have keys1: "hashCacheKeys s1 = [?k 3]"
    and cache1: "hashCache s1 = fmupd (?k 3) (call_entry ?aba) fmempty"
    by (simp_all add: s1_def init_def call_key_aba)
  \<comment> \<open>the second call has the same key and another string: the key is pushed again\<close>
  define s2 where "s2 = step ?aca s1"
  have miss2: "\<not> hash_hit (fmlookup (hashCache s1) (call_key ?aca)) (entity (call_entry ?aca))"
    by (simp add: cache1 call_key_aca hash_hit_def call_entry_def string_call_def)
  have below1: "map_size (hashCache s1) < ?N"
    using N by (simp add: cache1 map_size_upd map_size_empty HASH_CACHE_SIZE_def)
  have "step ?aca s1 =
      (evict s1)\<lparr>hashCacheKeys := hashCacheKeys (evict s1) @ [call_key ?aca],
                 hashCache := fmupd (call_key ?aca) (call_entry ?aca) (hashCache (evict s1))\<rparr>"
    using miss2 by (intro step_miss) (simp_all add: is_insert_string)
  then have keys2: "hashCacheKeys s2 = [?k 3, ?k 3]"
    and cache2: "hashCache s2 = fmupd (?k 3) (call_entry ?aca) fmempty"
    by (simp_all add: s2_def evict_below [OF below1] keys1 cache1 call_key_aca)
  have size2: "map_size (hashCache s2) = 1"
    by (simp add: cache2 map_size_upd map_size_empty)
  \<comment> \<open>distinct keys fill the map up to its capacity\<close>
  define s3 where "s3 = run ?mid s2"
  have fresh3: "\<forall>c \<in> set ?mid. call_key c |\<notin>| fmdom (hashCache s2)"
    using kne by (auto simp: cache2)
  have dist3: "distinct (map call_key ?mid)"
    by (rule distinct_keys_a) simp
  have ins3: "\<forall>c \<in> set ?mid. is_insert c"
    by (auto simp: is_insert_a)
  have "map_size (hashCache s2) + length ?mid \<le> ?N"
    using N by (simp add: size2)
  with ins3 dist3 fresh3 have "run ?mid s2 =
      s2\<lparr>hashCacheKeys := hashCacheKeys s2 @ map call_key ?mid,
         hashCache := fill (hashCache s2) ?mid\<rparr>"
    by (rule run_fill)
  then have keys3: "hashCacheKeys s3 = ?k 3 # ?k 3 # map call_key ?mid"
    and cache3: "hashCache s3 = fill (hashCache s2) ?mid"
    by (simp_all add: s3_def keys2)
  have size3: "map_size (hashCache s3) = ?N"
    unfolding cache3 using N
    by (subst map_size_fill [OF dist3 fresh3]) (simp add: size2)
  have dom3: "\<And>n. 0 < n \<Longrightarrow> ?k n |\<in>| fmdom (hashCache s3) \<longleftrightarrow> n = 3 \<or> (4 \<le> n \<and> n < ?N + 3)"
    by (simp add: cache3 key_a_in_fill cache2 key_a_eq eq_commute [of "call_key (a_call 3)"])
  \<comment> \<open>at capacity: the oldest key is shifted and deleted\<close>
  define s4 where "s4 = step (a_call (?N + 3)) s3"
  have cache4: "hashCache s4 =
      fmupd (?k (?N + 3)) (call_entry (a_call (?N + 3))) (fmdrop (?k 3) (hashCache s3))"
    and keys4: "hashCacheKeys s4 = (?k 3 # map call_key ?mid) @ [?k (?N + 3)]"
    unfolding s4_def using N
    by (intro step_evicting [where k = "?k 3"]; simp add: is_insert_a dom3 size3 keys3)+
  have dom4: "\<And>n. 0 < n \<Longrightarrow> ?k n |\<in>| fmdom (hashCache s4) \<longleftrightarrow> 4 \<le> n \<and> n < ?N + 4"
    using N by (auto simp: cache4 dom3 key_a_eq eq_commute [of "call_key (a_call (?N + 3))"])
  have size4: "map_size (hashCache s4) = ?N"
    using N by (simp add: cache4 map_size_upd map_size_drop dom3 size3)
  \<comment> \<open>the next key in the list is the duplicate, no longer in the map: nothing is deleted\<close>
  define s5 where "s5 = step (a_call (?N + 4)) s4"
  have cache5: "hashCache s5 =
      fmupd (?k (?N + 4)) (call_entry (a_call (?N + 4))) (fmdrop (?k 3) (hashCache s4))"
    unfolding s5_def
    by (intro step_evicting(1) [where k = "?k 3"]; simp add: is_insert_a dom4 size4 keys4)
  have size5: "map_size (hashCache s5) = ?N + 1"
    using N by (simp add: cache5 map_size_upd map_size_drop dom4 size4)
  have "[4..<?N + 5] = [4..<?N + 3] @ [?N + 3, ?N + 4]"
    using upt_split_last2 [of 4 "?N + 3"] N by (simp add: add.commute)
  then have "run (?aba # ?aca # map a_call [4..<?N + 5]) init = s5"
    by (simp add: run_Cons run_append run_Nil s1_def s2_def s3_def s4_def s5_def)
  with size5 show ?thesis by (simp add: HASH_CACHE_SIZE_def)
qed


section \<open>Buffers are cached by reference\<close>

subsection \<open>While no cached Buffer is overwritten\<close>

text \<open>With the store fixed, every call keeps the content cache coherent, a call on a
  payload of positive length returns the tag of its bytes, and a second call on the same
  payload is a hit that returns the same tag and leaves the caches as they are.\<close>

lemma coherent_init: "coherent h init"
  by (simp add: coherent_def init_def)

lemma coherent_evict: "coherent h s \<Longrightarrow> coherent h (evict s)"
  by (auto simp: coherent_def evict_def split: list.splits if_splits)

lemma entitytag_result_cases:
  "entitytag h e weak s = (t, s') \<Longrightarrow>
   (entity_length h e = 0 \<and> s' = s) \<or>
   (entity_length h e \<noteq> 0 \<and> hash_hit (fmlookup (hashCache s) (cacheKey h e)) e \<and> s' = s) \<or>
   (entity_length h e \<noteq> 0 \<and> \<not> hash_hit (fmlookup (hashCache s) (cacheKey h e)) e \<and>
    s' = (evict s)\<lparr>hashCacheKeys := hashCacheKeys (evict s) @ [cacheKey h e],
                   hashCache := fmupd (cacheKey h e) \<lparr>entity = e, tag = compute_tag h e\<rparr>
                                  (hashCache (evict s))\<rparr>)"
  by (auto simp: entitytag_def Let_def split: if_splits)

lemma entitytag_coherent:
  assumes "coherent h s"
  shows "coherent h (snd (entitytag h e weak s))"
proof -
  obtain t s' where r: "entitytag h e weak s = (t, s')" by (cases "entitytag h e weak s")
  from entitytag_result_cases [OF r] show ?thesis
  proof (elim disjE conjE)
    assume "s' = (evict s)\<lparr>hashCacheKeys := hashCacheKeys (evict s) @ [cacheKey h e],
        hashCache := fmupd (cacheKey h e) \<lparr>entity = e, tag = compute_tag h e\<rparr>
                       (hashCache (evict s))\<rparr>"
    with coherent_evict [OF assms] show ?thesis
      by (auto simp: r coherent_def)
  qed (use assms r in simp_all)
qed

lemma entitytag_coherent_tag:
  assumes "coherent h s" and "entity_length h e \<noteq> 0"
  shows "fst (entitytag h e weak s) =
           (if weak then ''W/'' @ compute_tag h e else compute_tag h e)"
proof (cases "hash_hit (fmlookup (hashCache s) (cacheKey h e)) e")
  case True
  then obtain c where c: "fmlookup (hashCache s) (cacheKey h e) = Some c" "entity c = e"
    by (auto simp: hash_hit_def split: option.splits)
  with assms(1) have "tag c = compute_tag h e" by (auto simp: coherent_def)
  with c assms(2) show ?thesis by (simp add: entitytag_hit)
next
  case False
  with assms(2) show ?thesis by (simp add: entitytag_miss)
qed

lemma stattag_hashCache: "stattag now st weak s = Inr (t, s') \<Longrightarrow> hashCache s' = hashCache s"
  by (cases st)
     (auto simp: stattag_def Let_def split: timeval.splits option.splits if_splits)

lemma step_coherent: "coherent (heap c) s \<Longrightarrow> coherent (heap c) (step c s)"
proof -
  assume a: "coherent (heap c) s"
  show ?thesis
  proof (cases "etag (heap c) (clock c) (arg c) (opts c) s")
    case (Inl err)
    with a show ?thesis by (simp add: step_def)
  next
    case (Inr p)
    obtain t s' where p: "p = (t, s')" by (cases p)
    show ?thesis
    proof (cases "isstats (arg c)")
      case True
      with Inr p obtain st w where "stattag (clock c) st w s = Inr (t, s')"
        by (auto simp: etag_def Let_def split: option.splits if_splits)
      then have "hashCache s' = hashCache s"
        by (rule stattag_hashCache)
      with a Inr p show ?thesis by (simp add: step_def coherent_def)
    next
      case False
      with Inr p obtain e w where "entitytag (heap c) e w s = (t, s')"
        by (auto simp: etag_def Let_def split: option.splits if_splits)
      with entitytag_coherent [OF a, of e w] Inr p show ?thesis by (simp add: step_def)
    qed
  qed
qed

text \<open>A second call on the same payload, with the Buffer contents as they were, is a hit.\<close>

lemma entitytag_twice:
  assumes "entity_length h e \<noteq> 0" and "entitytag h e weak s = (t, s')"
  shows "\<exists>c. fmlookup (hashCache s') (cacheKey h e) = Some c \<and> entity c = e \<and>
             t = (if weak then ''W/'' @ tag c else tag c) \<and>
             entitytag h e weak' s' = (if weak' then ''W/'' @ tag c else tag c, s')"
proof -
  from entitytag_result_cases [OF assms(2)] assms(1)
  consider (hit) "hash_hit (fmlookup (hashCache s) (cacheKey h e)) e" "s' = s"
    | (miss) "\<not> hash_hit (fmlookup (hashCache s) (cacheKey h e)) e"
        "s' = (evict s)\<lparr>hashCacheKeys := hashCacheKeys (evict s) @ [cacheKey h e],
                hashCache := fmupd (cacheKey h e) \<lparr>entity = e, tag = compute_tag h e\<rparr>
                               (hashCache (evict s))\<rparr>"
    by blast
  then show ?thesis
  proof cases
    case hit
    then obtain c where c: "fmlookup (hashCache s) (cacheKey h e) = Some c" "entity c = e"
      by (auto simp: hash_hit_def split: option.splits)
    with assms hit(2) show ?thesis by (auto simp: entitytag_hit)
  next
    case miss
    let ?c = "\<lparr>entity = e, tag = compute_tag h e\<rparr>"
    have "fmlookup (hashCache s') (cacheKey h e) = Some ?c" by (simp add: miss(2))
    moreover have "entity ?c = e" by simp
    moreover have "fst (entitytag h e weak s) =
        (if weak then ''W/'' @ compute_tag h e else compute_tag h e)"
      using assms(1) miss(1) by (simp add: entitytag_miss)
    then have "t = (if weak then ''W/'' @ tag ?c else tag ?c)"
      by (simp add: assms(2))
    ultimately show ?thesis using assms(1) by (auto simp: entitytag_hit simp del: cacheKey.simps)
  qed
qed

subsection \<open>Strings\<close>

text \<open>Strings are values: whatever the calls made before, and whatever happened to the
  Buffers, a call on a string of positive length returns the tag of that string.\<close>

lemma compute_tag_Str: "compute_tag h (Str x) = compute_tag h' (Str x)"
  by (simp add: compute_tag_def)

lemma strings_coherent_init: "strings_coherent init"
  by (simp add: strings_coherent_def init_def)

lemma strings_coherent_evict: "strings_coherent s \<Longrightarrow> strings_coherent (evict s)"
  by (auto simp: strings_coherent_def evict_def split: list.splits if_splits)

lemma entitytag_strings_coherent:
  assumes "strings_coherent s"
  shows "strings_coherent (snd (entitytag h e weak s))"
proof -
  obtain t s' where r: "entitytag h e weak s = (t, s')" by (cases "entitytag h e weak s")
  from entitytag_result_cases [OF r] show ?thesis
  proof (elim disjE conjE)
    assume "s' = (evict s)\<lparr>hashCacheKeys := hashCacheKeys (evict s) @ [cacheKey h e],
        hashCache := fmupd (cacheKey h e) \<lparr>entity = e, tag = compute_tag h e\<rparr>
                       (hashCache (evict s))\<rparr>"
    with strings_coherent_evict [OF assms] show ?thesis
      by (auto simp: r strings_coherent_def compute_tag_Str [of h _ "\<lambda>a. []"])
  qed (use assms r in simp_all)
qed

lemma step_strings_coherent: "strings_coherent s \<Longrightarrow> strings_coherent (step c s)"
proof -
  assume a: "strings_coherent s"
  show ?thesis
  proof (cases "etag (heap c) (clock c) (arg c) (opts c) s")
    case (Inl err)
    with a show ?thesis by (simp add: step_def)
  next
    case (Inr p)
    obtain t s' where p: "p = (t, s')" by (cases p)
    show ?thesis
    proof (cases "isstats (arg c)")
      case True
      with Inr p obtain st w where "stattag (clock c) st w s = Inr (t, s')"
        by (auto simp: etag_def Let_def split: option.splits if_splits)
      then have "hashCache s' = hashCache s"
        by (rule stattag_hashCache)
      with a Inr p show ?thesis by (simp add: step_def strings_coherent_def)
    next
      case False
      with Inr p obtain e w where "entitytag (heap c) e w s = (t, s')"
        by (auto simp: etag_def Let_def split: option.splits if_splits)
      with entitytag_strings_coherent [OF a, of "heap c" e w] Inr p show ?thesis
        by (simp add: step_def)
    qed
  qed
qed

lemma run_strings_coherent: "strings_coherent s \<Longrightarrow> strings_coherent (run cs s)"
  by (induction cs arbitrary: s) (simp_all add: run_Nil run_Cons step_strings_coherent)

lemma string_result_after_run:
  assumes "x \<noteq> []"
  shows "result \<lparr>heap = h, clock = now, arg = JString x, opts = options\<rparr> (run cs init) =
           Inr (if options = Some True then ''W/'' @ compute_tag h (Str x)
                else compute_tag h (Str x))"
proof -
  let ?s = "run cs init"
  let ?weak = "case options of Some b \<Rightarrow> b | None \<Rightarrow> False"
  have sc: "strings_coherent ?s"
    by (rule run_strings_coherent [OF strings_coherent_init])
  have len: "entity_length h (Str x) \<noteq> 0" using assms by simp
  have "fst (entitytag h (Str x) ?weak ?s) =
      (if ?weak then ''W/'' @ compute_tag h (Str x) else compute_tag h (Str x))"
  proof (cases "hash_hit (fmlookup (hashCache ?s) (cacheKey h (Str x))) (Str x)")
    case True
    then obtain c where c: "fmlookup (hashCache ?s) (cacheKey h (Str x)) = Some c"
        "entity c = Str x"
      by (auto simp: hash_hit_def split: option.splits)
    with sc have "tag c = compute_tag h (Str x)"
      unfolding strings_coherent_def using compute_tag_Str [of h x "\<lambda>a. []"] by metis
    with c len show ?thesis by (simp add: entitytag_hit del: cacheKey.simps)
  next
    case False
    with len show ?thesis by (simp add: entitytag_miss del: cacheKey.simps)
  qed
  then show ?thesis
    by (cases options; cases "entitytag h (Str x) ?weak ?s")
       (auto simp: result_def etag_payload split: if_splits)
qed

subsection \<open>A Buffer overwritten between two calls\<close>

lemma digits_Suc3: "4 \<le> radix \<Longrightarrow> digits radix (Suc (Suc (Suc 0))) = ''3''"
  by (simp add: digits_small [of radix "Suc (Suc (Suc 0))"] digit_char_def)

lemma base64_sha1_abc: "base64 (sha1 [0x61, 0x62, 0x63]) = ''qZk+NkcGgWq6PiVxeFDCbJzQ2J0=''"
  by (simp add: sha1_eval base64_char_def)

lemma base64_sha1_axc: "base64 (sha1 [0x61, 0x78, 0x63]) = ''pZxiud809h15Zu8eN5Js/Dw7twk=''"
  by (simp add: sha1_eval base64_char_def)

lemma compute_tag_abc: \<open>compute_tag buf_abc (Buf 0) = ''"3-qZk+NkcGgWq6PiVxeFDCbJzQ2J0"''\<close>
  by (simp add: compute_tag_def buf_abc_def base64_sha1_abc digits_Suc3)

lemma compute_tag_axc: \<open>compute_tag buf_axc (Buf 0) = ''"3-pZxiud809h15Zu8eN5Js/Dw7twk"''\<close>
  by (simp add: compute_tag_def buf_axc_def base64_sha1_axc digits_Suc3)

lemma digits_99: "digits 10 99 = ''99''"
  by (simp add: digits_step [of 10 99] digits_small [of 10 9] digit_char_def)

lemma cacheKey_abc: "cacheKey buf_abc (Buf 0) = ''3-97-99''"
  by (simp add: buf_abc_def digits_Suc3 digits_97 digits_99)

lemma cacheKey_axc: "cacheKey buf_axc (Buf 0) = ''3-97-99''"
  by (simp add: buf_axc_def digits_Suc3 digits_97 digits_99)

lemma step_abc: "step (buffer_call buf_abc) init = after_abc"
proof -
  have "is_insert (buffer_call buf_abc)"
    by (simp add: is_insert_def buffer_call_def buf_abc_def)
  moreover have "call_key (buffer_call buf_abc) |\<notin>| fmdom (hashCache init)"
    by (simp add: init_def)
  moreover have "map_size (hashCache init) < HASH_CACHE_SIZE"
    by (simp add: init_def map_size_empty HASH_CACHE_SIZE_def)
  ultimately have "step (buffer_call buf_abc) init =
      init\<lparr>hashCacheKeys := hashCacheKeys init @ [call_key (buffer_call buf_abc)],
           hashCache := fmupd (call_key (buffer_call buf_abc)) (call_entry (buffer_call buf_abc))
                          (hashCache init)\<rparr>"
    by (rule step_fresh_key)
  moreover have "call_key (buffer_call buf_abc) = ''3-97-99''"
    by (simp add: call_key_def buffer_call_def cacheKey_abc del: cacheKey.simps)
  moreover have \<open>call_entry (buffer_call buf_abc) =
      \<lparr>entity = Buf 0, tag = ''"3-qZk+NkcGgWq6PiVxeFDCbJzQ2J0"''\<rparr>\<close>
    by (simp add: call_entry_def buffer_call_def compute_tag_abc)
  ultimately show ?thesis by (simp add: init_def after_abc_def)
qed

lemma result_abc: \<open>result (buffer_call buf_abc) init = Inr ''"3-qZk+NkcGgWq6PiVxeFDCbJzQ2J0"''\<close>
proof -
  have "entity_length buf_abc (Buf 0) \<noteq> 0" by (simp add: buf_abc_def)
  moreover have "\<not> hash_hit (fmlookup (hashCache init) (cacheKey buf_abc (Buf 0))) (Buf 0)"
    by (simp add: init_def hash_hit_def del: cacheKey.simps)
  ultimately show ?thesis
    by (simp add: result_def buffer_call_def etag_payload entitytag_miss compute_tag_abc
          del: cacheKey.simps)
qed

lemma result_axc_fresh: \<open>result (buffer_call buf_axc) init = Inr ''"3-pZxiud809h15Zu8eN5Js/Dw7twk"''\<close>
proof -
  have "entity_length buf_axc (Buf 0) \<noteq> 0" by (simp add: buf_axc_def)
  moreover have "\<not> hash_hit (fmlookup (hashCache init) (cacheKey buf_axc (Buf 0))) (Buf 0)"
    by (simp add: init_def hash_hit_def del: cacheKey.simps)
  ultimately show ?thesis
    by (simp add: result_def buffer_call_def etag_payload entitytag_miss compute_tag_axc
          del: cacheKey.simps)
qed

lemma etag_axc_stale:
  \<open>etag buf_axc now (JBuffer 0) None after_abc = Inr (''"3-qZk+NkcGgWq6PiVxeFDCbJzQ2J0"'', after_abc)\<close>
proof -
  have "entity_length buf_axc (Buf 0) \<noteq> 0" by (simp add: buf_axc_def)
  moreover have \<open>fmlookup (hashCache after_abc) (cacheKey buf_axc (Buf 0)) =
      Some \<lparr>entity = Buf 0, tag = ''"3-qZk+NkcGgWq6PiVxeFDCbJzQ2J0"''\<rparr>\<close>
    by (simp add: after_abc_def cacheKey_axc del: cacheKey.simps)
  ultimately show ?thesis
    by (simp add: etag_payload entitytag_hit del: cacheKey.simps)
qed

text \<open>
  C1 does not hold of the code. The Buffer at address 0 holds \<^verbatim>\<open>abc\<close> at the first call
  and \<^verbatim>\<open>axc\<close> at the second: another payload with the same length, first and last byte,
  hence the same key. \<^verbatim>\<open>cached.entity === entity\<close> compares the references, which are
  equal, so the second call returns the tag cached for \<^verbatim>\<open>abc\<close> and computes nothing; the
  tag of \<^verbatim>\<open>axc\<close> is another one.
\<close>

theorem C1_stale_buffer_hit:
  \<open>result (buffer_call buf_abc) init = Inr ''"3-qZk+NkcGgWq6PiVxeFDCbJzQ2J0"'' \<and>
   buf_axc 0 \<noteq> buf_abc 0 \<and>
   cacheKey buf_axc (Buf 0) = cacheKey buf_abc (Buf 0) \<and>
   result (buffer_call buf_axc) (step (buffer_call buf_abc) init) =
     Inr ''"3-qZk+NkcGgWq6PiVxeFDCbJzQ2J0"'' \<and>
   step (buffer_call buf_axc) (step (buffer_call buf_abc) init) = step (buffer_call buf_abc) init \<and>
   compute_tag buf_axc (Buf 0) = ''"3-pZxiud809h15Zu8eN5Js/Dw7twk"''\<close>
proof -
  have ne: "buf_axc 0 \<noteq> buf_abc 0"
    by (simp add: buf_abc_def buf_axc_def)
  have \<open>result (buffer_call buf_axc) after_abc = Inr ''"3-qZk+NkcGgWq6PiVxeFDCbJzQ2J0"''\<close>
    and "step (buffer_call buf_axc) after_abc = after_abc"
    by (simp_all add: result_def step_def buffer_call_def etag_axc_stale)
  with ne show ?thesis
    by (simp add: result_abc step_abc cacheKey_abc cacheKey_axc compute_tag_axc
          del: cacheKey.simps)
qed

text \<open>
  C3 does not hold of the code. The same call, on the Buffer at address 0 holding
  \<^verbatim>\<open>axc\<close>, returns one string with the caches empty and another after one earlier call
  on the same Buffer object that then held \<^verbatim>\<open>abc\<close>.
\<close>

theorem C3_result_depends_on_cache:
  \<open>result (buffer_call buf_axc) init = Inr ''"3-pZxiud809h15Zu8eN5Js/Dw7twk"'' \<and>
   result (buffer_call buf_axc) (run [buffer_call buf_abc] init) =
     Inr ''"3-qZk+NkcGgWq6PiVxeFDCbJzQ2J0"''\<close>
proof -
  have \<open>result (buffer_call buf_axc) after_abc = Inr ''"3-qZk+NkcGgWq6PiVxeFDCbJzQ2J0"''\<close>
    by (simp add: result_def buffer_call_def etag_axc_stale)
  then show ?thesis
    by (simp add: result_axc_fresh run_Cons run_Nil step_abc)
qed

text \<open>
  C6 does not hold of the code. After a call on the Buffer at address 0 holding \<^verbatim>\<open>abc\<close>,
  the strong tag returned for the same Buffer holding \<^verbatim>\<open>axc\<close> is not the length in
  hexadecimal followed by the first 27 characters of the base64 SHA-1 digest of its bytes.
\<close>

theorem C6_stale_digest:
  \<open>etag buf_axc 0 (JBuffer 0) (Some False) (run [buffer_call buf_abc] init) \<noteq>
     Inr (''"'' @ digits 16 (length (buf_axc 0)) @ ''-'' @ take 27 (base64 (sha1 (buf_axc 0))) @ ''"'',
          run [buffer_call buf_abc] init)\<close>
proof -
  have \<open>etag buf_axc 0 (JBuffer 0) (Some False) after_abc =
      Inr (''"3-qZk+NkcGgWq6PiVxeFDCbJzQ2J0"'', after_abc)\<close>
    using etag_axc_stale [of 0] by (simp add: etag_def)
  moreover have \<open>''"'' @ digits 16 (length (buf_axc 0)) @ ''-'' @
      take 27 (base64 (sha1 (buf_axc 0))) @ ''"'' = ''"3-pZxiud809h15Zu8eN5Js/Dw7twk"''\<close>
    using compute_tag_axc by (simp add: compute_tag_def)
  ultimately show ?thesis
    by (simp add: run_Cons run_Nil step_abc)
qed

text \<open>
  C10 does not hold of the code. After the two calls on the Buffer at address 0, holding
  \<^verbatim>\<open>abc\<close> and then \<^verbatim>\<open>axc\<close>, the entry of key \<^verbatim>\<open>3-97-99\<close> stores the Buffer with the tag
  of \<^verbatim>\<open>abc\<close>, and the tag that the digest yields for the stored Buffer is that of \<^verbatim>\<open>axc\<close>.
\<close>

theorem C10_incoherent_entry:
  \<open>fmlookup (hashCache (run [buffer_call buf_abc, buffer_call buf_axc] init)) ''3-97-99'' =
     Some \<lparr>entity = Buf 0, tag = ''"3-qZk+NkcGgWq6PiVxeFDCbJzQ2J0"''\<rparr> \<and>
   compute_tag buf_axc (Buf 0) = ''"3-pZxiud809h15Zu8eN5Js/Dw7twk"''\<close>
proof -
  have "step (buffer_call buf_axc) after_abc = after_abc"
    by (simp add: step_def buffer_call_def etag_axc_stale)
  then have "run [buffer_call buf_abc, buffer_call buf_axc] init = after_abc"
    by (simp add: run_Cons run_Nil step_abc)
  then show ?thesis
    by (simp add: compute_tag_axc after_abc_def)
qed

end
